theory Spec2Isabelle
  imports Complex_Main "HOL-Library.Word"
begin

unbundle bit_operations_syntax

section \<open>JavaScript values and primitive operations\<close>

text \<open>
  The utilities of \<^verbatim>\<open>src/nodes/Aptos/utils\<close> are pure TypeScript functions. A thrown
  exception is the left injection of a sum type.
\<close>

datatype error = RangeError | TypeError | SyntaxError | UnsupportedBcsType

text \<open>
  A JavaScript Number is NaN, an infinity or a finite value. Finite values are kept as
  rationals: every IEEE double is one, and the operations that take a Number below
  (comparison with zero, truncation to an integer, the integrality test of \<^verbatim>\<open>BigInt(x)\<close>)
  do not round; where a Number is made from an integer, the rounding is written out. The
  two zeros are not distinguished, as none of these operations tells them apart.
\<close>

datatype number = NaN | PosInf | NegInf | Fin rat

type_synonym byte = "8 word"

text \<open>\<^verbatim>\<open>ToInt32\<close>: truncate towards zero, then wrap into the signed 32-bit range.\<close>

definition truncateNumber :: "rat \<Rightarrow> int" where
  "truncateNumber r = (if r < 0 then - \<lfloor>- r\<rfloor> else \<lfloor>r\<rfloor>)"

definition toInt32 :: "int \<Rightarrow> int" where
  "toInt32 k = signed_take_bit 31 k"

definition numberToInt32 :: "number \<Rightarrow> int" where
  "numberToInt32 x = (case x of Fin r \<Rightarrow> toInt32 (truncateNumber r) | _ \<Rightarrow> 0)"

text \<open>
  The 32-bit operators \<^verbatim>\<open>&\<close>, \<^verbatim>\<open>|\<close>, \<^verbatim>\<open>>>\<close> and \<^verbatim>\<open><<\<close> on integer-valued Numbers:
  both operands go through \<^verbatim>\<open>ToInt32\<close>, a shift count is taken modulo 32, and the result
  is a signed 32-bit integer.
\<close>

definition js_and :: "int \<Rightarrow> int \<Rightarrow> int" where
  "js_and a b = toInt32 a AND toInt32 b"

definition js_or :: "int \<Rightarrow> int \<Rightarrow> int" where
  "js_or a b = toInt32 a OR toInt32 b"

definition js_sar :: "int \<Rightarrow> nat \<Rightarrow> int" where
  "js_sar a k = drop_bit (k mod 32) (toInt32 a)"

definition js_shl :: "int \<Rightarrow> nat \<Rightarrow> int" where
  "js_shl a k = toInt32 (push_bit (k mod 32) (toInt32 a))"

text \<open>Storing a Number into a \<^verbatim>\<open>Uint8Array\<close> keeps its low eight bits.\<close>

definition toUint8 :: "int \<Rightarrow> byte" where
  "toUint8 k = word_of_int k"

section \<open>bcsUtils.ts: fixed-width encoders\<close>

text \<open>
  \<^verbatim>\<open>encodeU8\<close>, \<^verbatim>\<open>encodeU16\<close> and \<^verbatim>\<open>encodeU32\<close> take a Number and use the 32-bit
  operators. None of them has a throwing path.
\<close>

definition encodeU8 :: "number \<Rightarrow> byte list" where
  "encodeU8 v = [toUint8 (js_and (numberToInt32 v) 0xff)]"

definition encodeU16 :: "number \<Rightarrow> byte list" where
  "encodeU16 v =
     (let bytes = replicate 2 (0 :: byte);
          bytes = bytes[0 := toUint8 (js_and (numberToInt32 v) 0xff)];
          bytes = bytes[1 := toUint8 (js_and (js_sar (numberToInt32 v) 8) 0xff)]
      in bytes)"

definition encodeU32 :: "number \<Rightarrow> byte list" where
  "encodeU32 v =
     (let bytes = replicate 4 (0 :: byte);
          bytes = bytes[0 := toUint8 (js_and (numberToInt32 v) 0xff)];
          bytes = bytes[1 := toUint8 (js_and (js_sar (numberToInt32 v) 8) 0xff)];
          bytes = bytes[2 := toUint8 (js_and (js_sar (numberToInt32 v) 16) 0xff)];
          bytes = bytes[3 := toUint8 (js_and (js_sar (numberToInt32 v) 24) 0xff)]
      in bytes)"

text \<open>
  The loop shared by \<^verbatim>\<open>encodeU64\<close>, \<^verbatim>\<open>encodeU128\<close> and \<^verbatim>\<open>encodeU256\<close>:
  \<^verbatim>\<open>for (let i = 0; i < n; i++) bytes[i] = Number((bigValue >> BigInt(i * 8)) & BigInt(0xff))\<close>.
  BigInt shifts and masks are those of unbounded two's complement integers.
\<close>

function encodeBig_loop :: "nat \<Rightarrow> int \<Rightarrow> nat \<Rightarrow> byte list \<Rightarrow> byte list" where
  "encodeBig_loop n bigValue i bytes =
     (if i < n
      then encodeBig_loop n bigValue (i + 1)
             (bytes[i := toUint8 (drop_bit (i * 8) bigValue AND 0xff)])
      else bytes)"
  by pat_completeness auto
termination
  by (relation "measure (\<lambda>(n, bigValue, i, bytes). n - i)") auto

subsection \<open>Strings and \<^verbatim>\<open>BigInt(x)\<close>\<close>

text \<open>
  A \<^typ>\<open>char\<close> stands for one UTF-16 code unit below 256, so a \<^typ>\<open>string\<close> is a
  JavaScript string over Latin-1 and \<^const>\<open>length\<close> is its \<^verbatim>\<open>.length\<close>.
\<close>

definition isWhiteSpace :: "char \<Rightarrow> bool" where
  "isWhiteSpace c = (of_char c \<in> {9, 10, 11, 12, 13, 32, 160 :: nat})"

definition trim :: "string \<Rightarrow> string" where
  "trim s = rev (dropWhile isWhiteSpace (rev (dropWhile isWhiteSpace s)))"

definition startsWith :: "string \<Rightarrow> string \<Rightarrow> bool" where
  "startsWith s p = (take (length p) s = p)"

text \<open>The value of a digit character in a radix up to 36, if it is one.\<close>

definition digitValue :: "char \<Rightarrow> nat option" where
  "digitValue c =
     (let k = (of_char c :: nat) in
      if 48 \<le> k \<and> k \<le> 57 then Some (k - 48)
      else if 97 \<le> k \<and> k \<le> 122 then Some (k - 87)
      else if 65 \<le> k \<and> k \<le> 90 then Some (k - 55)
      else None)"

definition isDigit :: "nat \<Rightarrow> char \<Rightarrow> bool" where
  "isDigit radix c = (case digitValue c of None \<Rightarrow> False | Some d \<Rightarrow> d < radix)"

definition digitsValue :: "nat \<Rightarrow> string \<Rightarrow> nat" where
  "digitsValue radix ds = foldl (\<lambda>acc c. acc * radix + the (digitValue c)) 0 ds"

text \<open>
  \<^verbatim>\<open>StringToBigInt\<close>: surrounding white space is dropped; the empty string is \<^verbatim>\<open>0n\<close>;
  a decimal literal may carry a sign; \<^verbatim>\<open>0x\<close>, \<^verbatim>\<open>0o\<close> and \<^verbatim>\<open>0b\<close> literals may not; anything
  else is a SyntaxError.
\<close>

definition unsignedDigits :: "nat \<Rightarrow> string \<Rightarrow> error + int" where
  "unsignedDigits radix ds =
     (if ds \<noteq> [] \<and> list_all (isDigit radix) ds then Inr (int (digitsValue radix ds))
      else Inl SyntaxError)"

definition stringToBigInt :: "string \<Rightarrow> error + int" where
  "stringToBigInt s =
     (let t = trim s in
      if t = [] then Inr 0
      else if startsWith t ''0x'' \<or> startsWith t ''0X'' then unsignedDigits 16 (drop 2 t)
      else if startsWith t ''0o'' \<or> startsWith t ''0O'' then unsignedDigits 8 (drop 2 t)
      else if startsWith t ''0b'' \<or> startsWith t ''0B'' then unsignedDigits 2 (drop 2 t)
      else if hd t = CHR ''-'' then map_sum id uminus (unsignedDigits 10 (tl t))
      else if hd t = CHR ''+'' then unsignedDigits 10 (tl t)
      else unsignedDigits 10 t)"

text \<open>\<^verbatim>\<open>BigInt(x)\<close> of a Number: a RangeError unless the Number is an integer.\<close>

definition numberToBigInt :: "number \<Rightarrow> error + int" where
  "numberToBigInt x =
     (case x of Fin r \<Rightarrow> (if of_int \<lfloor>r\<rfloor> = r then Inr \<lfloor>r\<rfloor> else Inl RangeError)
              | _ \<Rightarrow> Inl RangeError)"

text \<open>An argument of a parameter typed \<^verbatim>\<open>bigint | number | string\<close>.\<close>

datatype amount = Num number | Str string | Big int

definition toBigInt :: "amount \<Rightarrow> error + int" where
  "toBigInt a = (case a of Big n \<Rightarrow> Inr n | Num x \<Rightarrow> numberToBigInt x | Str s \<Rightarrow> stringToBigInt s)"

text \<open>\<^verbatim>\<open>encodeU64(value: bigint | number)\<close> starts with \<^verbatim>\<open>BigInt(value)\<close>.\<close>

definition encodeU64 :: "amount \<Rightarrow> error + byte list" where
  "encodeU64 v =
     (case toBigInt v of
        Inl e \<Rightarrow> Inl e
      | Inr bigValue \<Rightarrow> Inr (encodeBig_loop 8 bigValue 0 (replicate 8 0)))"

text \<open>
  \<^verbatim>\<open>encodeU128\<close> and \<^verbatim>\<open>encodeU256\<close> convert only a string:
  \<^verbatim>\<open>typeof value === 'string' ? BigInt(value) : value\<close>. A Number that reaches the loop meets
  \<^verbatim>\<open>bigValue >> BigInt(0)\<close>, which throws a TypeError (BigInt mixed with Number).
\<close>

definition bigValueOf :: "amount \<Rightarrow> error + int" where
  "bigValueOf v = (case v of Str s \<Rightarrow> stringToBigInt s | Big n \<Rightarrow> Inr n | Num x \<Rightarrow> Inl TypeError)"

definition encodeU128 :: "amount \<Rightarrow> error + byte list" where
  "encodeU128 v =
     (case bigValueOf v of
        Inl e \<Rightarrow> Inl e
      | Inr bigValue \<Rightarrow> Inr (encodeBig_loop 16 bigValue 0 (replicate 16 0)))"

definition encodeU256 :: "amount \<Rightarrow> error + byte list" where
  "encodeU256 v =
     (case bigValueOf v of
        Inl e \<Rightarrow> Inl e
      | Inr bigValue \<Rightarrow> Inr (encodeBig_loop 32 bigValue 0 (replicate 32 0)))"

definition encodeBool :: "bool \<Rightarrow> byte list" where
  "encodeBool v = [if v then 1 else 0]"

section \<open>bcsUtils.ts: ULEB128\<close>

text \<open>
  \<^verbatim>\<open>encodeUleb128(value: number)\<close> is a do-while loop on the 32-bit operators:
  \<^verbatim>\<open>do { let byte = value & 0x7f; value >>= 7; if (value !== 0) byte |= 0x80; bytes.push(byte) }
  while (value !== 0)\<close>.
  The arithmetic shift keeps a negative value negative, so the loop need not end: the result
  is an option, \<^const>\<open>None\<close> when the loop runs forever.
\<close>

partial_function (option) encodeUleb128_loop :: "int \<Rightarrow> int list \<Rightarrow> int list option" where
  "encodeUleb128_loop v bytes =
     (let byte = js_and v 0x7f;
          v' = js_sar v 7;
          byte = (if v' \<noteq> 0 then js_or byte 0x80 else byte);
          bytes = bytes @ [byte]
      in if v' \<noteq> 0 then encodeUleb128_loop v' bytes else Some bytes)"

definition encodeUleb128 :: "number \<Rightarrow> byte list option" where
  "encodeUleb128 v = map_option (map toUint8) (encodeUleb128_loop (numberToInt32 v) [])"

text \<open>
  \<^verbatim>\<open>decodeUleb128(bytes, offset = 0)\<close>:
  \<^verbatim>\<open>while (offset + bytesRead < bytes.length) { const byte = bytes[offset + bytesRead];
  result |= (byte & 0x7f) << shift; bytesRead++; if ((byte & 0x80) === 0) break; shift += 7 }\<close>.
  The loop's counter \<^verbatim>\<open>bytesRead\<close> is the argument \<open>n\<close>.
\<close>

record uleb_result =
  "value" :: int
  bytesRead :: nat

function decodeUleb128_loop :: "byte list \<Rightarrow> nat \<Rightarrow> int \<Rightarrow> nat \<Rightarrow> nat \<Rightarrow> uleb_result" where
  "decodeUleb128_loop bytes offset result shift n =
     (if offset + n < length bytes
      then let byte = uint (bytes ! (offset + n));
               result = js_or result (js_shl (js_and byte 0x7f) shift);
               n = n + 1
           in if js_and byte 0x80 = 0 then \<lparr>value = result, bytesRead = n\<rparr>
              else decodeUleb128_loop bytes offset result (shift + 7) n
      else \<lparr>value = result, bytesRead = n\<rparr>)"
  by pat_completeness auto
termination
  by (relation "measure (\<lambda>(bytes, offset, result, shift, n). length bytes - (offset + n))") auto

definition decodeUleb128 :: "byte list \<Rightarrow> nat \<Rightarrow> uleb_result" where
  "decodeUleb128 bytes offset = decodeUleb128_loop bytes offset 0 0 0"

section \<open>bcsUtils.ts: decodeU64\<close>

text \<open>
  \<^verbatim>\<open>for (let i = 0; i < 8 && i < bytes.length; i++) result |= BigInt(bytes[i]) << BigInt(i * 8)\<close>
\<close>

function decodeU64_loop :: "byte list \<Rightarrow> nat \<Rightarrow> int \<Rightarrow> int" where
  "decodeU64_loop bytes i result =
     (if i < 8 \<and> i < length bytes
      then decodeU64_loop bytes (i + 1) (result OR push_bit (i * 8) (uint (bytes ! i)))
      else result)"
  by pat_completeness auto
termination
  by (relation "measure (\<lambda>(bytes, i, result). 8 - i)") auto

definition decodeU64 :: "byte list \<Rightarrow> int" where
  "decodeU64 bytes = decodeU64_loop bytes 0 0"

section \<open>accountUtils.ts: hexToBytes, and bcsUtils.ts: encodeAddress\<close>

text \<open>
  \<^verbatim>\<open>parseInt(s, 16)\<close>: leading white space is skipped, a sign is read, a \<^verbatim>\<open>0x\<close> prefix is
  dropped, and the longest run of hexadecimal digits is the value; \<^const>\<open>None\<close> is NaN,
  returned when that run is empty. Nothing is thrown.
\<close>

definition parseInt16 :: "string \<Rightarrow> int option" where
  "parseInt16 str =
     (let s = dropWhile isWhiteSpace str;
          sign = (if s \<noteq> [] \<and> hd s = CHR ''-'' then - 1 else 1);
          s = (if s \<noteq> [] \<and> (hd s = CHR ''+'' \<or> hd s = CHR ''-'') then tl s else s);
          s = (if startsWith s ''0x'' \<or> startsWith s ''0X'' then drop 2 s else s);
          z = takeWhile (isDigit 16) s
      in if z = [] then None else Some (sign * int (digitsValue 16 z)))"

text \<open>
  \<^verbatim>\<open>bytes[i] = x\<close> on a \<^verbatim>\<open>Uint8Array\<close>: NaN is stored as 0, an integer modulo 256, and a
  write past the end is ignored.
\<close>

definition typedArraySet :: "byte list \<Rightarrow> nat \<Rightarrow> int option \<Rightarrow> byte list" where
  "typedArraySet bytes i x =
     (if i < length bytes then bytes[i := (case x of None \<Rightarrow> 0 | Some k \<Rightarrow> toUint8 k)]
      else bytes)"

text \<open>
  \<^verbatim>\<open>for (let i = 0; i < cleanHex.length; i += 2)
    bytes[i / 2] = parseInt(cleanHex.slice(i, i + 2), 16)\<close>
\<close>

function hexToBytes_loop :: "string \<Rightarrow> nat \<Rightarrow> byte list \<Rightarrow> byte list" where
  "hexToBytes_loop cleanHex i bytes =
     (if i < length cleanHex
      then hexToBytes_loop cleanHex (i + 2)
             (typedArraySet bytes (i div 2) (parseInt16 (take 2 (drop i cleanHex))))
      else bytes)"
  by pat_completeness auto
termination
  by (relation "measure (\<lambda>(cleanHex, i, bytes). length cleanHex - i)") auto

text \<open>
  \<^verbatim>\<open>new Uint8Array(cleanHex.length / 2)\<close> truncates a fractional length, so an odd number of
  characters gives one byte less and the last character is dropped by the ignored write.
\<close>

definition hexToBytes :: "string \<Rightarrow> byte list" where
  "hexToBytes hex =
     (let cleanHex = (if startsWith hex ''0x'' then drop 2 hex else hex);
          bytes = replicate (length cleanHex div 2) 0
      in hexToBytes_loop cleanHex 0 bytes)"

definition padStart :: "nat \<Rightarrow> char \<Rightarrow> string \<Rightarrow> string" where
  "padStart n c s = replicate (n - length s) c @ s"

definition encodeAddress :: "string \<Rightarrow> byte list" where
  "encodeAddress address =
     (let cleanAddress = (if startsWith address ''0x'' then drop 2 address else address);
          paddedAddress = padStart 64 CHR ''0'' cleanAddress
      in hexToBytes paddedAddress)"

section \<open>unitConverter.ts\<close>

text \<open>
  \<^verbatim>\<open>10 ** d\<close> is computed on Numbers. The model rounds the exact power to the nearest double,
  ties to even, and to \<^verbatim>\<open>Infinity\<close> past the largest double. ECMAScript leaves the accuracy
  of \<^verbatim>\<open>**\<close> to the engine; what the statements below rely on is that the result is exact
  where the power is a double, and is a double in any case.
\<close>

function bitLength :: "int \<Rightarrow> nat" where
  "bitLength n = (if n \<le> 0 then 0 else Suc (bitLength (n div 2)))"
  by pat_completeness auto
termination
  by (relation "measure nat") auto

definition roundToDouble :: "int \<Rightarrow> number" where
  "roundToDouble n =
     (let e = bitLength n - 53;
          q = n div 2 ^ e;
          r = n mod 2 ^ e;
          q = (if 2 ^ e < 2 * r \<or> (2 * r = 2 ^ e \<and> odd q) then q + 1 else q)
      in if 2 ^ 1024 \<le> q * 2 ^ e then PosInf else Fin (of_int (q * 2 ^ e)))"

definition jsPow10 :: "nat \<Rightarrow> number" where
  "jsPow10 d = roundToDouble (10 ^ d)"

text \<open>BigInt division truncates towards zero; a zero divisor is a RangeError.\<close>

definition bigIntDiv :: "int \<Rightarrow> int \<Rightarrow> error + int" where
  "bigIntDiv a b = (if b = 0 then Inl RangeError else Inr (sgn a * sgn b * (\<bar>a\<bar> div \<bar>b\<bar>)))"

text \<open>
  \<^verbatim>\<open>convertUnits(amount, fromDecimals, toDecimals)\<close>. The decimals are non-negative integers.
\<close>

definition convertUnits :: "amount \<Rightarrow> nat \<Rightarrow> nat \<Rightarrow> error + int" where
  "convertUnits amount fromDecimals toDecimals =
     (case toBigInt amount of
        Inl e \<Rightarrow> Inl e
      | Inr amountBigInt \<Rightarrow>
          (let decimalDiff = int toDecimals - int fromDecimals in
           if decimalDiff > 0 then
             (case numberToBigInt (jsPow10 (nat decimalDiff)) of
                Inl e \<Rightarrow> Inl e
              | Inr p \<Rightarrow> Inr (amountBigInt * p))
           else if decimalDiff < 0 then
             (case numberToBigInt (jsPow10 (nat \<bar>decimalDiff\<bar>)) of
                Inl e \<Rightarrow> Inl e
              | Inr p \<Rightarrow> bigIntDiv amountBigInt p)
           else Inr amountBigInt))"

text \<open>The comparison \<^verbatim>\<open>x >= y\<close> on Numbers: false as soon as one side is NaN.\<close>

fun js_ge :: "number \<Rightarrow> number \<Rightarrow> bool" where
  "js_ge NaN y = False"
| "js_ge x NaN = False"
| "js_ge PosInf y = True"
| "js_ge x NegInf = True"
| "js_ge NegInf y = False"
| "js_ge x PosInf = False"
| "js_ge (Fin a) (Fin b) = (b \<le> a)"

definition isNaN :: "number \<Rightarrow> bool" where
  "isNaN x = (x = NaN)"

text \<open>
  \<^verbatim>\<open>isValidAmount\<close>: the body of the \<^verbatim>\<open>try\<close>, and the \<^verbatim>\<open>catch\<close> that turns any exception
  into \<^verbatim>\<open>false\<close>. \<^verbatim>\<open>parseFloat\<close> is the host's function from strings to Numbers; it is a
  parameter of the model.
\<close>

definition isValidAmount_try :: "(string \<Rightarrow> number) \<Rightarrow> amount \<Rightarrow> error + bool" where
  "isValidAmount_try parseFloat amount =
     (case amount of
        Big n \<Rightarrow> Inr (0 \<le> n)
      | Str s \<Rightarrow> (let num = parseFloat s in Inr (\<not> isNaN num \<and> js_ge num (Fin 0)))
      | Num x \<Rightarrow> (let num = x in Inr (\<not> isNaN num \<and> js_ge num (Fin 0))))"

definition isValidAmount :: "(string \<Rightarrow> number) \<Rightarrow> amount \<Rightarrow> bool" where
  "isValidAmount parseFloat amount =
     (case isValidAmount_try parseFloat amount of Inl e \<Rightarrow> False | Inr b \<Rightarrow> b)"

definition compareAmounts :: "amount \<Rightarrow> amount \<Rightarrow> error + int" where
  "compareAmounts a b =
     (case toBigInt a of
        Inl e \<Rightarrow> Inl e
      | Inr aBigInt \<Rightarrow>
          (case toBigInt b of
             Inl e \<Rightarrow> Inl e
           | Inr bBigInt \<Rightarrow>
               Inr (if aBigInt < bBigInt then - 1 else if aBigInt > bBigInt then 1 else 0)))"

section \<open>bcsUtils.ts: strings, vectors and encodeMoveArg\<close>

text \<open>
  The outcome of a call: it returns, it throws, or its loop never ends. A value of type
  \<^verbatim>\<open>unknown\<close> is a Number, a string, a BigInt, a boolean or an array of such values. The
  casts \<^verbatim>\<open>value as number\<close>, \<^verbatim>\<open>value as string\<close> of the source check nothing at run time;
  where a value of another type would go through JavaScript's conversion of a string to a
  Number or of a value to a string, the outcome is \<open>Unmodelled\<close>: these conversions are not
  part of this development.
\<close>

datatype 'a outcome = Returns 'a | Throws error | Diverges | Unmodelled

datatype jsvalue = JNum number | JStr string | JBig int | JBool bool | JArr "jsvalue list"

definition bind :: "'a outcome \<Rightarrow> ('a \<Rightarrow> 'b outcome) \<Rightarrow> 'b outcome" where
  "bind x f = (case x of Returns v \<Rightarrow> f v | Throws e \<Rightarrow> Throws e | Diverges \<Rightarrow> Diverges
                | Unmodelled \<Rightarrow> Unmodelled)"

definition ofSum :: "error + 'a \<Rightarrow> 'a outcome" where
  "ofSum x = (case x of Inl e \<Rightarrow> Throws e | Inr v \<Rightarrow> Returns v)"

definition ofOption :: "'a option \<Rightarrow> 'a outcome" where
  "ofOption x = (case x of None \<Rightarrow> Diverges | Some v \<Rightarrow> Returns v)"

text \<open>The elements of \<^verbatim>\<open>xs.map(f)\<close> are computed in order; the first that does not return ends the call.\<close>

fun collect :: "'a outcome list \<Rightarrow> 'a list outcome" where
  "collect [] = Returns []"
| "collect (x # xs) = bind x (\<lambda>v. bind (collect xs) (\<lambda>vs. Returns (v # vs)))"

text \<open>
  \<^verbatim>\<open>target.set(source, offset)\<close> on a \<^verbatim>\<open>Uint8Array\<close>: a RangeError when the source does not
  fit.
\<close>

definition typedArraySetAll :: "byte list \<Rightarrow> byte list \<Rightarrow> nat \<Rightarrow> byte list outcome" where
  "typedArraySetAll target source offset =
     (if length target < offset + length source then Throws RangeError
      else Returns (take offset target @ source @ drop (offset + length source) target))"

text \<open>\<^verbatim>\<open>new TextEncoder().encode(s)\<close>: UTF-8, two bytes for a code unit from 128 to 255.\<close>

definition utf8Encode :: "string \<Rightarrow> byte list" where
  "utf8Encode s =
     concat (map (\<lambda>c. let k = (of_char c :: nat) in
                        if k < 128 then [of_nat k]
                        else [of_nat (192 + k div 64), of_nat (128 + k mod 64)]) s)"

definition encodeString :: "string \<Rightarrow> byte list outcome" where
  "encodeString v =
     (let stringBytes = utf8Encode v in
      bind (ofOption (encodeUleb128 (Fin (of_nat (length stringBytes))))) (\<lambda>lengthPrefix.
      let result = replicate (length lengthPrefix + length stringBytes) 0 in
      bind (typedArraySetAll result lengthPrefix 0) (\<lambda>result.
      typedArraySetAll result stringBytes (length lengthPrefix))))"

text \<open>\<^verbatim>\<open>for (const item of items) { result.set(item, offset); offset += item.length }\<close>\<close>

fun encodeVector_loop :: "byte list list \<Rightarrow> byte list \<Rightarrow> nat \<Rightarrow> byte list outcome" where
  "encodeVector_loop [] result offset = Returns result"
| "encodeVector_loop (item # items) result offset =
     bind (typedArraySetAll result item offset) (\<lambda>result.
     encodeVector_loop items result (offset + length item))"

definition encodeVector :: "byte list list \<Rightarrow> byte list outcome" where
  "encodeVector items =
     bind (ofOption (encodeUleb128 (Fin (of_nat (length items))))) (\<lambda>lengthPrefix.
     let totalLength = foldl (\<lambda>sum item. sum + length item) 0 items;
         result = replicate (length lengthPrefix + totalLength) 0
     in bind (typedArraySetAll result lengthPrefix 0) (\<lambda>result.
        encodeVector_loop items result (length lengthPrefix)))"

text \<open>\<^verbatim>\<open>toLowerCase\<close> on Latin-1, and \<^verbatim>\<open>s.slice(7, -1)\<close>.\<close>

definition toLowerChar :: "char \<Rightarrow> char" where
  "toLowerChar c =
     (let k = (of_char c :: nat) in
      if (65 \<le> k \<and> k \<le> 90) \<or> (192 \<le> k \<and> k \<le> 222 \<and> k \<noteq> 215) then char_of (k + 32) else c)"

definition toLowerCase :: "string \<Rightarrow> string" where
  "toLowerCase s = map toLowerChar s"

definition slice_7_to_last :: "string \<Rightarrow> string" where
  "slice_7_to_last s = drop 7 (butlast s)"

text \<open>The conversions the arms of \<^verbatim>\<open>encodeMoveArg\<close> apply to their argument.\<close>

text \<open>\<^verbatim>\<open>value ? 1 : 0\<close>: the truth value of a JavaScript value.\<close>

fun truthy :: "jsvalue \<Rightarrow> bool" where
  "truthy (JBool b) = b"
| "truthy (JNum x) = (x \<noteq> NaN \<and> x \<noteq> Fin 0)"
| "truthy (JBig n) = (n \<noteq> 0)"
| "truthy (JStr s) = (s \<noteq> [])"
| "truthy (JArr xs) = True"

text \<open>
  The operand of \<^verbatim>\<open>value & 0xff\<close>: a BigInt mixed with a Number is a TypeError, a boolean
  is 0 or 1.
\<close>

fun bitOperand :: "jsvalue \<Rightarrow> number outcome" where
  "bitOperand (JNum x) = Returns x"
| "bitOperand (JBool b) = Returns (Fin (if b then 1 else 0))"
| "bitOperand (JBig n) = Throws TypeError"
| "bitOperand (JStr s) = Unmodelled"
| "bitOperand (JArr xs) = Unmodelled"

text \<open>\<^verbatim>\<open>BigInt(value)\<close> in \<^verbatim>\<open>encodeU64\<close>.\<close>

fun asU64Argument :: "jsvalue \<Rightarrow> amount outcome" where
  "asU64Argument (JNum x) = Returns (Num x)"
| "asU64Argument (JStr s) = Returns (Str s)"
| "asU64Argument (JBig n) = Returns (Big n)"
| "asU64Argument (JBool b) = Returns (Big (if b then 1 else 0))"
| "asU64Argument (JArr xs) = Unmodelled"

text \<open>
  \<^verbatim>\<open>encodeU128\<close> and \<^verbatim>\<open>encodeU256\<close> convert a string and shift anything else by a BigInt,
  a TypeError unless it is a BigInt.
\<close>

fun asU128Argument :: "jsvalue \<Rightarrow> amount outcome" where
  "asU128Argument (JStr s) = Returns (Str s)"
| "asU128Argument (JBig n) = Returns (Big n)"
| "asU128Argument v = Throws TypeError"

text \<open>
  \<^verbatim>\<open>encodeMoveArg(type, value)\<close>. The \<^verbatim>\<open>switch\<close> compares \<^verbatim>\<open>type.toLowerCase()\<close> with each
  label, the label \<^verbatim>\<open>'0x1::string::String'\<close> included; the \<^verbatim>\<open>default\<close> arm tests the type as
  given. A value without a \<^verbatim>\<open>startsWith\<close> or a \<^verbatim>\<open>map\<close> method makes the call a TypeError.
\<close>

fun encodeMoveArg :: "string \<Rightarrow> jsvalue \<Rightarrow> byte list outcome" where
  "encodeMoveArg type v =
     (let t = toLowerCase type in
      if t = ''bool'' then Returns (encodeBool (truthy v))
      else if t = ''u8'' then bind (bitOperand v) (\<lambda>x. Returns (encodeU8 x))
      else if t = ''u16'' then bind (bitOperand v) (\<lambda>x. Returns (encodeU16 x))
      else if t = ''u32'' then bind (bitOperand v) (\<lambda>x. Returns (encodeU32 x))
      else if t = ''u64'' then bind (asU64Argument v) (\<lambda>x. ofSum (encodeU64 x))
      else if t = ''u128'' then bind (asU128Argument v) (\<lambda>x. ofSum (encodeU128 x))
      else if t = ''u256'' then bind (asU128Argument v) (\<lambda>x. ofSum (encodeU256 x))
      else if t = ''address'' then
        (case v of JStr s \<Rightarrow> Returns (encodeAddress s) | _ \<Rightarrow> Throws TypeError)
      else if t = ''string'' \<or> t = ''0x1::string::String'' then
        (case v of JStr s \<Rightarrow> encodeString s | _ \<Rightarrow> Unmodelled)
      else if startsWith type ''vector<'' then
        (let innerType = slice_7_to_last type in
         case v of
           JArr vs \<Rightarrow> bind (collect (map (\<lambda>x. encodeMoveArg innerType x) vs)) encodeVector
         | _ \<Rightarrow> Throws TypeError)
      else Throws UnsupportedBcsType)"

section \<open>moveUtils.ts: parseMoveTypeString and convertToMoveArg\<close>

record move_type =
  baseType :: string
  typeArgs :: "string list"

text \<open>
  The scanner of \<^verbatim>\<open>parseMoveTypeString\<close>: one step for each character of the generic part,
  on the list of arguments found, the nesting depth and the current argument.
\<close>

definition scanGeneric :: "string list \<times> int \<times> string \<Rightarrow> char \<Rightarrow> string list \<times> int \<times> string" where
  "scanGeneric st char =
     (case st of (args, depth, current) \<Rightarrow>
        if char = CHR ''<'' then (args, depth + 1, current @ [char])
        else if char = CHR ''>'' then (args, depth - 1, current @ [char])
        else if char = CHR '','' \<and> depth = 0 then (args @ [trim current], depth, [])
        else (args, depth, current @ [char]))"

definition parseMoveTypeString :: "string \<Rightarrow> move_type" where
  "parseMoveTypeString typeStr =
     (if CHR ''<'' \<notin> set typeStr then \<lparr>baseType = typeStr, typeArgs = []\<rparr>
      else
        let genericStart = length (takeWhile (\<lambda>c. c \<noteq> CHR ''<'') typeStr);
            base = take genericStart typeStr;
            genericPart = drop (genericStart + 1) (butlast typeStr)
        in case foldl scanGeneric ([], 0, []) genericPart of
             (args, depth, current) \<Rightarrow>
               \<lparr>baseType = base,
                typeArgs = (if trim current \<noteq> [] then args @ [trim current] else args)\<rparr>)"

definition isPrimitiveType :: "string \<Rightarrow> bool" where
  "isPrimitiveType type =
     (toLowerCase type \<in> set [''bool'', ''u8'', ''u16'', ''u32'', ''u64'', ''u128'', ''u256'',
        ''address'', ''signer''])"

definition isVectorType :: "string \<Rightarrow> bool" where
  "isVectorType type = startsWith (toLowerCase type) ''vector<''"

text \<open>\<^verbatim>\<open>typeArgs[0] || ''\<close>\<close>

definition getVectorInnerType :: "string \<Rightarrow> string" where
  "getVectorInnerType vectorType =
     (case typeArgs (parseMoveTypeString vectorType) of [] \<Rightarrow> [] | a # as \<Rightarrow> a)"

text \<open>
  \<^verbatim>\<open>Buffer.from(hex, 'hex')\<close> decodes two hexadecimal digits a byte and stops at the first
  pair that is not two digits, or at a last single character.
\<close>

fun bufferFromHex :: "string \<Rightarrow> nat list" where
  "bufferFromHex (a # b # rest) =
     (if isDigit 16 a \<and> isDigit 16 b
      then (the (digitValue a) * 16 + the (digitValue b)) # bufferFromHex rest
      else [])"
| "bufferFromHex rest = []"

text \<open>
  \<^verbatim>\<open>Number(value)\<close>: a boolean is 0 or 1 and a BigInt is rounded to the nearest double.
\<close>

definition negateNumber :: "number \<Rightarrow> number" where
  "negateNumber x =
     (case x of NaN \<Rightarrow> NaN | PosInf \<Rightarrow> NegInf | NegInf \<Rightarrow> PosInf | Fin r \<Rightarrow> Fin (- r))"

fun toNumber :: "jsvalue \<Rightarrow> number outcome" where
  "toNumber (JNum x) = Returns x"
| "toNumber (JBool b) = Returns (Fin (if b then 1 else 0))"
| "toNumber (JBig n) =
     Returns (if 0 \<le> n then roundToDouble n else negateNumber (roundToDouble (- n)))"
| "toNumber (JStr s) = Unmodelled"
| "toNumber (JArr xs) = Unmodelled"

fun convertToMoveArg :: "jsvalue \<Rightarrow> string \<Rightarrow> jsvalue outcome" where
  "convertToMoveArg v type =
     (if isPrimitiveType type then
        (let t = toLowerCase type in
         if t = ''bool'' then Returns (JBool (truthy v))
         else if t = ''u8'' \<or> t = ''u16'' \<or> t = ''u32'' then
           bind (toNumber v) (\<lambda>x. Returns (JNum x))
         else if t = ''u64'' \<or> t = ''u128'' \<or> t = ''u256'' then
           bind (asU64Argument v) (\<lambda>a. bind (ofSum (toBigInt a)) (\<lambda>n. Returns (JBig n)))
         else if t = ''address'' then (case v of JStr s \<Rightarrow> Returns (JStr s) | _ \<Rightarrow> Unmodelled)
         else Returns v)
      else if isVectorType type then
        (let innerType = getVectorInnerType type in
         case v of
           JArr vs \<Rightarrow>
             bind (collect (map (\<lambda>x. convertToMoveArg x innerType) vs)) (\<lambda>xs. Returns (JArr xs))
         | JStr s \<Rightarrow>
             if innerType = ''u8'' then
               (let hex = (if startsWith s ''0x'' then drop 2 s else s)
                in Returns (JArr (map (\<lambda>b. JNum (Fin (of_nat b))) (bufferFromHex hex))))
             else Returns v
         | _ \<Rightarrow> Returns v)
      else Returns v)"

section \<open>Reference functions for the statements\<close>

text \<open>The value of a byte sequence read as a little-endian unsigned integer.\<close>

fun le_value :: "byte list \<Rightarrow> int" where
  "le_value [] = 0"
| "le_value (b # bs) = uint b + 256 * le_value bs"

text \<open>The \<open>k\<close> low-order bytes of an integer, least significant first.\<close>

fun le_bytes :: "nat \<Rightarrow> int \<Rightarrow> byte list" where
  "le_bytes 0 n = []"
| "le_bytes (Suc k) n = word_of_int (n mod 256) # le_bytes k (n div 256)"

text \<open>The ULEB128 digits of a non-negative integer: seven bits a byte, high bit on all but the last.\<close>

function ulebBytes :: "int \<Rightarrow> int list" where
  "ulebBytes v = (if v < 128 then [v] else (v mod 128 + 128) # ulebBytes (v div 128))"
  by pat_completeness auto
termination
  by (relation "measure nat") auto

text \<open>The value of a byte sequence read as a big-endian unsigned integer.\<close>

definition be_value :: "byte list \<Rightarrow> int" where
  "be_value bs = foldl (\<lambda>acc b. acc * 256 + uint b) 0 bs"

text \<open>
  The three forms an amount \<open>n\<close> arrives in: a Number, its decimal string, a BigInt.
\<close>

function decimalString :: "nat \<Rightarrow> string" where
  "decimalString n =
     (if n < 10 then [''0123456789'' ! n]
      else decimalString (n div 10) @ [''0123456789'' ! (n mod 10)])"
  by pat_completeness auto
termination
  by (relation "measure id") auto

datatype representation = AsNumber | AsString | AsBigInt

fun represent :: "representation \<Rightarrow> nat \<Rightarrow> amount" where
  "represent AsNumber n = Num (Fin (of_nat n))"
| "represent AsString n = Str (decimalString n)"
| "represent AsBigInt n = Big (int n)"

text \<open>A Number is a non-negative quantity: not NaN, and zero or more.\<close>

definition nonNegative :: "number \<Rightarrow> bool" where
  "nonNegative x = (case x of Fin r \<Rightarrow> 0 \<le> r | PosInf \<Rightarrow> True | _ \<Rightarrow> False)"

text \<open>
  An integer is a double when it fits 53 significant bits and lies below \<open>2 ^ 1024\<close>.
\<close>

definition isDouble :: "int \<Rightarrow> bool" where
  "isDouble n = (n mod 2 ^ (bitLength \<bar>n\<bar> - 53) = 0 \<and> \<bar>n\<bar> < 2 ^ 1024)"

declare encodeBig_loop.simps [simp del] decodeU64_loop.simps [simp del]
  decodeUleb128_loop.simps [simp del] ulebBytes.simps [simp del]
  hexToBytes_loop.simps [simp del] decimalString.simps [simp del] bitLength.simps [simp del]
  encodeMoveArg.simps [simp del] convertToMoveArg.simps [simp del]

declare encodeUleb128_loop.simps [code]

section \<open>Fixed-width integers: proofs\<close>

lemma byte_or_push: "uint (b :: byte) + 256 * x = uint b OR push_bit 8 x"
proof -
  have b: "take_bit 8 (uint b) = uint b"
    using uint_bounded [of b] by (simp add: take_bit_int_eq_self)
  have "take_bit 8 (uint b) + push_bit 8 x = take_bit 8 (uint b) OR push_bit 8 x"
    using concat_bit_eq [of 8 "uint b" x] by (simp add: concat_bit_def)
  then show ?thesis by (simp add: b push_bit_eq_mult)
qed

lemma le_value_le_bytes: "le_value (le_bytes k n) = n mod 2 ^ (8 * k)"
proof (induction k arbitrary: n)
  case 0 show ?case by simp
next
  case (Suc k)
  have u: "uint (word_of_int (n mod 256) :: byte) = n mod 256"
    by (simp add: uint_word_of_int)
  have "n mod (256 * 2 ^ (8 * k)) = 256 * (n div 256 mod 2 ^ (8 * k)) + n mod 256"
    by (rule zmod_zmult2_eq) simp
  then show ?case using Suc [of "n div 256"] by (simp add: u power_add)
qed

lemma length_le_bytes: "length (le_bytes k n) = k"
  by (induction k arbitrary: n) auto

lemma le_value_append_zeros: "le_value (bs @ replicate k 0) = le_value bs"
proof (induction bs)
  case Nil show ?case by (induction k) auto
next
  case (Cons b bs) then show ?case by simp
qed

lemma toUint8_low: "toUint8 (k AND 0xff) = word_of_int (k mod 256)"
proof -
  have "k AND 255 = take_bit 8 k" by (simp add: take_bit_eq_mask mask_eq_exp_minus_1)
  then show ?thesis by (simp add: toUint8_def take_bit_eq_mod)
qed

lemma map_le_bytes:
  "map (\<lambda>j. toUint8 (drop_bit (j * 8) v AND 0xff)) [0..<k] = le_bytes k v"
proof (induction k arbitrary: v)
  case 0 show ?case by simp
next
  case (Suc k)
  have "map (\<lambda>j. toUint8 (drop_bit (j * 8) v AND 0xff)) [0..<Suc k] =
      toUint8 (v AND 0xff) # map (\<lambda>j. toUint8 (drop_bit (Suc j * 8) v AND 0xff)) [0..<k]"
    by (simp add: upt_conv_Cons map_Suc_upt [symmetric] del: upt_Suc)
  also have "(\<lambda>j. toUint8 (drop_bit (Suc j * 8) v AND 0xff)) =
      (\<lambda>j. toUint8 (drop_bit (j * 8) (v div 256) AND 0xff))"
  proof
    fix j
    have "drop_bit (Suc j * 8) v = drop_bit (j * 8) (drop_bit 8 v)"
      by (simp add: drop_bit_drop_bit add.commute)
    then show "toUint8 (drop_bit (Suc j * 8) v AND 0xff) =
        toUint8 (drop_bit (j * 8) (v div 256) AND 0xff)"
      by (simp add: drop_bit_eq_div)
  qed
  finally show ?case using Suc [of "v div 256"] by (simp add: toUint8_low)
qed

lemma toInt32_id: "- (2 ^ 31) \<le> k \<Longrightarrow> k < 2 ^ 31 \<Longrightarrow> toInt32 k = k"
  by (simp add: toInt32_def signed_take_bit_int_eq_self)

lemma numberToInt32_of_int: "numberToInt32 (Fin (of_int n)) = toInt32 n"
  by (simp add: numberToInt32_def truncateNumber_def)

lemma numberToBigInt_of_int: "numberToBigInt (Fin (of_int n)) = Inr n"
  by (simp add: numberToBigInt_def)

lemma int255: "(255::int) = mask 8" and int127: "(127::int) = mask 7"
  by (simp_all add: mask_eq_exp_minus_1)

lemma toInt32_small [simp]: "toInt32 255 = 255" "toInt32 127 = 127" "toInt32 128 = 128"
  by (simp_all add: toInt32_id)

lemma byte_of_and: "j \<le> 24 \<Longrightarrow>
  toUint8 (js_and (js_sar (toInt32 n) j) 0xff) = word_of_int (n div 2 ^ j mod 256)"
proof -
  assume j: "j \<le> 24"
  have "toUint8 (js_and (js_sar (toInt32 n) j) 0xff) = (word_of_int (drop_bit j n) :: byte)"
    unfolding toUint8_def js_and_def js_sar_def toInt32_small
    unfolding toInt32_def int255
    apply (rule bit_word_eqI)
    using j apply (auto simp add: bit_simps)
    done
  also have "\<dots> = word_of_int (n div 2 ^ j mod 256)"
    by (simp add: drop_bit_eq_div word_of_int_eq_iff take_bit_eq_mod)
  finally show ?thesis .
qed

lemma byte_of_and0: "toUint8 (js_and (toInt32 n) 0xff) = word_of_int (n mod 256)"
proof -
  have "toUint8 (js_and (toInt32 n) 0xff) = (word_of_int n :: byte)"
    unfolding toUint8_def js_and_def toInt32_small
    unfolding toInt32_def int255
    by (rule bit_word_eqI) (auto simp add: bit_simps)
  also have "\<dots> = word_of_int (n mod 256)"
    by (simp add: word_of_int_eq_iff take_bit_eq_mod)
  finally show ?thesis .
qed

lemma replicate_2_4:
  "replicate 2 x = [x, x]" "replicate 4 x = [x, x, x, x]"
  by (simp_all add: eval_nat_numeral)

lemma update_2_3:
  "[a, b, c, d][2 := v] = [a, b, v, d]" "[a, b, c, d][3 := v] = [a, b, c, v]"
  by (simp_all add: eval_nat_numeral)

lemma encodeU8_int: "encodeU8 (Fin (of_int n)) = le_bytes 1 n"
  by (simp add: encodeU8_def numberToInt32_of_int byte_of_and0)

lemma encodeU16_int: "encodeU16 (Fin (of_int n)) = le_bytes 2 n"
proof -
  have "le_bytes 2 n = [word_of_int (n mod 256), word_of_int (n div 256 mod 256)]"
    by (simp add: numeral_2_eq_2)
  then show ?thesis
    using byte_of_and [of 8 n]
    by (simp add: encodeU16_def numberToInt32_of_int byte_of_and0 replicate_2_4)
qed

lemma encodeU32_int: "encodeU32 (Fin (of_int n)) = le_bytes 4 n"
proof -
  have "le_bytes 4 n = [word_of_int (n mod 256), word_of_int (n div 256 mod 256),
      word_of_int (n div 256 div 256 mod 256), word_of_int (n div 256 div 256 div 256 mod 256)]"
    by (simp add: numeral_Bit0 [of "Num.Bit0 Num.One"] numeral_2_eq_2)
  moreover have "n div 256 div 256 = n div 2 ^ 16" "n div 256 div 256 div 256 = n div 2 ^ 24"
    by (simp_all add: zdiv_zmult2_eq [symmetric])
  ultimately show ?thesis
    using byte_of_and [of 8 n] byte_of_and [of 16 n] byte_of_and [of 24 n]
    by (simp add: encodeU32_def numberToInt32_of_int byte_of_and0 replicate_2_4 update_2_3)
qed

lemma encodeBig_loop_eq:
  "i \<le> n \<Longrightarrow> length bytes = n \<Longrightarrow>
   encodeBig_loop n v i bytes =
     take i bytes @ map (\<lambda>j. toUint8 (drop_bit (j * 8) v AND 0xff)) [i..<n]"
proof (induction n v i bytes rule: encodeBig_loop.induct)
  case (1 n v i bytes)
  show ?case
  proof (cases "i < n")
    case True
    let ?b = "toUint8 (drop_bit (i * 8) v AND 0xff)"
    have "encodeBig_loop n v i bytes = encodeBig_loop n v (i + 1) (bytes[i := ?b])"
      using True by (subst encodeBig_loop.simps) simp
    also have "\<dots> = take (i + 1) (bytes[i := ?b]) @
        map (\<lambda>j. toUint8 (drop_bit (j * 8) v AND 0xff)) [i + 1..<n]"
      using "1.IH" [OF True] True "1.prems" by simp
    also have "take (i + 1) (bytes[i := ?b]) = take i bytes @ [?b]"
      using True "1.prems" by (simp add: take_Suc_conv_app_nth)
    finally show ?thesis using True by (simp add: upt_conv_Cons)
  next
    case False
    with "1.prems" show ?thesis by (subst encodeBig_loop.simps) simp
  qed
qed

lemma encodeBig_le_bytes: "encodeBig_loop n v 0 (replicate n 0) = le_bytes n v"
  by (simp add: encodeBig_loop_eq map_le_bytes)

lemma encodeU64_big: "encodeU64 (Big n) = Inr (le_bytes 8 n)"
  by (simp add: encodeU64_def toBigInt_def encodeBig_le_bytes)

lemma encodeU64_num: "encodeU64 (Num (Fin (of_int n))) = Inr (le_bytes 8 n)"
  by (simp add: encodeU64_def toBigInt_def numberToBigInt_of_int encodeBig_le_bytes)

lemma encodeU128_big: "encodeU128 (Big n) = Inr (le_bytes 16 n)"
  by (simp add: encodeU128_def bigValueOf_def encodeBig_le_bytes)

lemma encodeU256_big: "encodeU256 (Big n) = Inr (le_bytes 32 n)"
  by (simp add: encodeU256_def bigValueOf_def encodeBig_le_bytes)

lemma le_bytes_mod: "le_bytes k (n mod 2 ^ (8 * k)) = le_bytes k n"
proof (induction k arbitrary: n)
  case 0 show ?case by simp
next
  case (Suc k)
  have e: "(2::int) ^ (8 * Suc k) = 256 * 2 ^ (8 * k)" by (simp add: power_add)
  have m: "n mod (256 * 2 ^ (8 * k)) = 256 * (n div 256 mod 2 ^ (8 * k)) + n mod 256"
    by (rule zmod_zmult2_eq) simp
  have "n mod (256 * 2 ^ (8 * k)) mod 256 = n mod 256"
    by (simp add: mod_mod_cancel)
  moreover have "n mod (256 * 2 ^ (8 * k)) div 256 = n div 256 mod 2 ^ (8 * k)"
    unfolding m by simp
  ultimately have "le_bytes (Suc k) (n mod (256 * 2 ^ (8 * k))) = le_bytes (Suc k) n"
    using Suc [of "n div 256"] by simp
  then show ?case by (simp only: e)
qed

text \<open>
  C1 (as the code has it). No encoder checks its argument against the width: for every
  integer \<open>n\<close>, in range or not, negative or not, each of them returns the little-endian
  bytes of \<open>n\<close> modulo \<open>2 ^ w\<close> and raises nothing.
\<close>

theorem encoders_wrap_modulo_width:
  "encodeU8 (Fin (of_int n)) = le_bytes 1 (n mod 2 ^ 8) \<and>
   encodeU16 (Fin (of_int n)) = le_bytes 2 (n mod 2 ^ 16) \<and>
   encodeU32 (Fin (of_int n)) = le_bytes 4 (n mod 2 ^ 32) \<and>
   encodeU64 (Big n) = Inr (le_bytes 8 (n mod 2 ^ 64)) \<and>
   encodeU64 (Num (Fin (of_int n))) = Inr (le_bytes 8 (n mod 2 ^ 64)) \<and>
   encodeU128 (Big n) = Inr (le_bytes 16 (n mod 2 ^ 128)) \<and>
   encodeU256 (Big n) = Inr (le_bytes 32 (n mod 2 ^ 256))"
  using le_bytes_mod [of 1 n] le_bytes_mod [of 2 n] le_bytes_mod [of 4 n]
    le_bytes_mod [of 8 n] le_bytes_mod [of 16 n] le_bytes_mod [of 32 n]
  by (simp add: encodeU8_int encodeU16_int encodeU32_int encodeU64_big encodeU64_num
      encodeU128_big encodeU256_big del: le_bytes.simps)

text \<open>The wrap-around at 300, which is 44 modulo 256.\<close>

theorem encoders_wrap_modulo_width_witness:
  "encodeU8 (Fin 300) = [44] \<and> encodeU64 (Big 300) = Inr [44, 1, 0, 0, 0, 0, 0, 0]"
  using encoders_wrap_modulo_width [of 300] by (simp add: eval_nat_numeral)

text \<open>
  C1 as stated fails: \<open>256\<close> and \<open>-1\<close> are outside the range of a u8, and \<open>2 ^ 64\<close> and
  \<open>-1\<close> outside that of a u64, yet the encoders return bytes.
\<close>

theorem encoders_no_range_check:
  "encodeU8 (Fin 256) = [0] \<and> encodeU8 (Fin (- 1)) = [255] \<and>
   encodeU64 (Big (2 ^ 64)) = Inr [0, 0, 0, 0, 0, 0, 0, 0] \<and>
   encodeU64 (Big (- 1)) = Inr [255, 255, 255, 255, 255, 255, 255, 255]"
  using encodeU8_int [of 256] encodeU8_int [of "- 1"]
  by (simp add: encodeU64_big eval_nat_numeral)

section \<open>decodeU64: proofs\<close>

lemma decodeU64_loop_eq:
  "decodeU64_loop bytes i r = r OR push_bit (i * 8) (le_value (take (8 - i) (drop i bytes)))"
proof (induction bytes i r rule: decodeU64_loop.induct)
  case (1 bytes i r)
  show ?case
  proof (cases "i < 8 \<and> i < length bytes")
    case True
    then have d: "drop i bytes = bytes ! i # drop (Suc i) bytes"
      by (simp add: Cons_nth_drop_Suc)
    from True have t: "8 - i = Suc (8 - Suc i)" by arith
    have "decodeU64_loop bytes i r =
        decodeU64_loop bytes (i + 1) (r OR push_bit (i * 8) (uint (bytes ! i)))"
      using True by (subst decodeU64_loop.simps) simp
    also have "\<dots> = (r OR push_bit (i * 8) (uint (bytes ! i))) OR
        push_bit ((i + 1) * 8) (le_value (take (8 - (i + 1)) (drop (i + 1) bytes)))"
      using "1.IH" [OF True] .
    also have "\<dots> = r OR push_bit (i * 8) (le_value (take (8 - i) (drop i bytes)))"
      unfolding d t
      by (simp add: byte_or_push push_bit_or push_bit_push_bit ac_simps del: push_bit_eq_mult)
    finally show ?thesis .
  next
    case False
    then have "take (8 - i) (drop i bytes) = []" by auto
    with False show ?thesis by (subst decodeU64_loop.simps) auto
  qed
qed

lemma decodeU64_le_value: "decodeU64 bytes = le_value (take 8 bytes)"
  by (simp add: decodeU64_def decodeU64_loop_eq)

text \<open>
  C2. For every integer \<open>n\<close> with \<open>0 \<le> n < 2 ^ 64\<close>, given as a BigInt or as a Number,
  \<^verbatim>\<open>encodeU64\<close> returns eight bytes from which \<^verbatim>\<open>decodeU64\<close> reads \<open>n\<close> back.
\<close>

theorem decodeU64_encodeU64_roundtrip:
  assumes "0 \<le> n" and "n < 2 ^ 64"
  shows "(\<exists>bs. encodeU64 (Big n) = Inr bs \<and> length bs = 8 \<and> decodeU64 bs = n) \<and>
         (\<exists>bs. encodeU64 (Num (Fin (of_int n))) = Inr bs \<and> length bs = 8 \<and> decodeU64 bs = n)"
proof -
  have "decodeU64 (le_bytes 8 n) = le_value (le_bytes 8 n)"
    by (simp add: decodeU64_le_value length_le_bytes)
  also have "\<dots> = n mod 2 ^ 64" by (simp add: le_value_le_bytes)
  also have "\<dots> = n" using assms by simp
  finally show ?thesis by (simp add: encodeU64_big encodeU64_num length_le_bytes)
qed

theorem decodeU64_encodeU64_roundtrip_witness:
  "\<exists>bs. encodeU64 (Big 258) = Inr bs \<and> length bs = 8 \<and> decodeU64 bs = 258"
  using decodeU64_encodeU64_roundtrip [of 258] by simp

text \<open>
  C6. For a byte sequence shorter than eight bytes \<^verbatim>\<open>decodeU64\<close> returns, without an
  error, the little-endian value of the bytes that are there, which is also what it returns
  when the missing high bytes are supplied as zeros.
\<close>

theorem decodeU64_short_input:
  assumes "length bytes < 8"
  shows "decodeU64 bytes = le_value bytes \<and>
         decodeU64 bytes = decodeU64 (bytes @ replicate (8 - length bytes) 0)"
  using assms by (simp add: decodeU64_le_value le_value_append_zeros)

theorem decodeU64_short_input_witness:
  "decodeU64 [1, 2] = 513 \<and> decodeU64 [1, 2] = decodeU64 [1, 2, 0, 0, 0, 0, 0, 0]"
  using decodeU64_short_input [of "[1, 2]"] by (simp add: eval_nat_numeral)

section \<open>ULEB128: proofs\<close>

lemma and127: "(k::int) AND 127 = k mod 128"
  by (simp add: int127 take_bit_eq_mask [symmetric] take_bit_eq_mod)

lemma or128: "0 \<le> k \<Longrightarrow> k < 128 \<Longrightarrow> (k::int) OR 128 = k + 128"
proof -
  assume "0 \<le> k" "k < 128"
  then have "take_bit 7 k = k" by (simp add: take_bit_int_eq_self)
  moreover have "take_bit 7 k + push_bit 7 1 = take_bit 7 k OR push_bit 7 (1::int)"
    using concat_bit_eq [of 7 k 1] by (simp add: concat_bit_def)
  ultimately show ?thesis by simp
qed

lemma uleb_step:
  assumes "0 \<le> v" "v < 2 ^ 31"
  shows "js_and v 0x7f = v mod 128" "js_sar v 7 = v div 128"
  using assms by (simp_all add: js_and_def js_sar_def toInt32_id and127 drop_bit_eq_div)

lemma js_or_128: "0 \<le> k \<Longrightarrow> k < 128 \<Longrightarrow> js_or k 0x80 = k + 128"
  by (simp add: js_or_def toInt32_id or128)

lemma encodeUleb128_loop_eq:
  "0 \<le> v \<Longrightarrow> v < 2 ^ 31 \<Longrightarrow> encodeUleb128_loop v bs = Some (bs @ ulebBytes v)"
proof (induction v arbitrary: bs rule: ulebBytes.induct)
  case (1 v)
  show ?case
  proof (cases "v < 128")
    case True
    with "1.prems" show ?thesis
      by (subst encodeUleb128_loop.simps, subst ulebBytes.simps)
         (simp add: uleb_step Let_def)
  next
    case False
    then have nz: "v div 128 \<noteq> 0" by simp
    have b: "0 \<le> v div 128" "v div 128 < 2 ^ 31" using "1.prems" by simp_all
    have "encodeUleb128_loop v bs = encodeUleb128_loop (v div 128) (bs @ [v mod 128 + 128])"
      using "1.prems" nz
      by (subst encodeUleb128_loop.simps) (simp add: uleb_step Let_def js_or_128)
    also have "\<dots> = Some ((bs @ [v mod 128 + 128]) @ ulebBytes (v div 128))"
      using "1.IH" [OF False b] .
    finally show ?thesis using False by (subst ulebBytes.simps) simp
  qed
qed

lemma uint_toUint8: "0 \<le> k \<Longrightarrow> k < 256 \<Longrightarrow> uint (toUint8 k) = k"
  by (simp add: toUint8_def uint_word_of_int)

lemma and128_zero: "0 \<le> k \<Longrightarrow> k < 128 \<Longrightarrow> (k::int) AND 128 = 0"
proof -
  assume "0 \<le> k" "k < 128"
  then have "\<not> bit k 7" by (simp add: bit_iff_odd)
  then show ?thesis using and_exp_eq_0_iff_not_bit [of k 7] by simp
qed

lemma and128_nonzero: "0 \<le> k \<Longrightarrow> k < 128 \<Longrightarrow> (k + 128 :: int) AND 128 \<noteq> 0"
proof -
  assume k: "0 \<le> k" "k < 128"
  then have "(k + 128) div 128 = 1" by simp
  then have "bit (k + 128) 7" by (simp add: bit_iff_odd)
  then show ?thesis using and_exp_eq_0_iff_not_bit [of "k + 128" 7] by simp
qed

lemma split7: "(v::int) mod 128 OR push_bit 7 (v div 128) = v"
proof -
  have "take_bit 7 v + push_bit 7 (drop_bit 7 v) = take_bit 7 v OR push_bit 7 (drop_bit 7 v)"
    using concat_bit_eq [of 7 v "drop_bit 7 v"] by (simp add: concat_bit_def)
  moreover have "take_bit 7 v + push_bit 7 (drop_bit 7 v) = v"
    using bits_ident [of 7 v] by (simp add: add.commute)
  ultimately show ?thesis by (simp add: take_bit_eq_mod drop_bit_eq_div)
qed

lemma js_shl_exact:
  "0 \<le> k \<Longrightarrow> s < 32 \<Longrightarrow> push_bit s k < 2 ^ 31 \<Longrightarrow> js_shl k s = push_bit s k"
proof -
  assume k: "0 \<le> k" and s: "s < 32" and b: "push_bit s k < 2 ^ 31"
  have "k \<le> push_bit s k" using k by (simp add: push_bit_eq_mult mult_le_cancel_left1)
  then have "toInt32 k = k" using k b by (simp add: toInt32_id)
  moreover have "- (2 ^ 31) \<le> push_bit s k"
  proof -
    have "- (2 ^ 31) \<le> (0::int)" by simp
    also have "0 \<le> push_bit s k" using k by simp
    finally show ?thesis .
  qed
  then have "toInt32 (push_bit s k) = push_bit s k" using b by (rule toInt32_id)
  ultimately show ?thesis using s by (simp add: js_shl_def)
qed

lemma js_or_exact:
  "0 \<le> a \<Longrightarrow> a < 2 ^ 31 \<Longrightarrow> 0 \<le> b \<Longrightarrow> b < 2 ^ 31 \<Longrightarrow> js_or a b = a OR b"
  by (simp add: js_or_def toInt32_id)

lemma decodeUleb128_loop_eq:
  "0 \<le> v \<Longrightarrow> bytes = pre @ map toUint8 (ulebBytes v) @ post \<Longrightarrow>
   offset + m = length pre \<Longrightarrow> 0 \<le> r \<Longrightarrow> r < 2 ^ 31 \<Longrightarrow>
   push_bit s v < 2 ^ 31 \<Longrightarrow> s < 32 \<Longrightarrow>
   decodeUleb128_loop bytes offset r s m =
     \<lparr>value = r OR push_bit s v, bytesRead = m + length (ulebBytes v)\<rparr>"
proof (induction v arbitrary: pre r s m rule: ulebBytes.induct)
  case (1 v)
  have v31: "v < 2 ^ 31"
  proof -
    have "v \<le> push_bit s v" using "1.prems"(1) by (simp add: push_bit_eq_mult mult_le_cancel_left1)
    then show ?thesis using "1.prems"(6) by simp
  qed
  show ?case
  proof (cases "v < 128")
    case True
    have ub: "ulebBytes v = [v]" using True by (subst ulebBytes.simps) simp
    have len: "offset + m < length bytes" using "1.prems" ub by simp
    have nth: "bytes ! (offset + m) = toUint8 v" using "1.prems" ub by (simp add: nth_append)
    have byte: "uint (toUint8 v) = v" using True "1.prems"(1) by (simp add: uint_toUint8)
    have a: "js_and v 0x7f = v" using "1.prems"(1) v31 True by (simp add: uleb_step)
    have z: "js_and v 0x80 = 0"
      using "1.prems"(1) v31 True by (simp add: js_and_def toInt32_id and128_zero)
    have sh: "js_shl v s = push_bit s v" using "1.prems" by (simp add: js_shl_exact)
    have o: "js_or r (push_bit s v) = r OR push_bit s v"
      using "1.prems" by (simp add: js_or_exact)
    show ?thesis
      using len by (subst decodeUleb128_loop.simps) (simp add: nth byte a z sh o ub Let_def)
  next
    case False
    let ?b = "v mod 128 + 128"
    let ?r = "r OR push_bit s (v mod 128)"
    have ub: "ulebBytes v = ?b # ulebBytes (v div 128)"
      using False by (subst ulebBytes.simps) simp
    have len: "offset + m < length bytes" using "1.prems" ub by simp
    have nth: "bytes ! (offset + m) = toUint8 ?b" using "1.prems" ub by (simp add: nth_append)
    have byte: "uint (toUint8 ?b) = ?b" by (simp add: uint_toUint8)
    have a: "js_and ?b 0x7f = v mod 128"
      by (simp add: js_and_def toInt32_id and127)
    have nz: "js_and ?b 0x80 \<noteq> 0"
      by (simp add: js_and_def toInt32_id and128_nonzero)
    have le: "push_bit s (v mod 128) \<le> push_bit s v"
      using "1.prems"(1) by (simp add: push_bit_eq_mult mult_left_mono zmod_le_nonneg_dividend)
    have sh: "js_shl (v mod 128) s = push_bit s (v mod 128)"
      using "1.prems" le by (simp add: js_shl_exact)
    have o: "js_or r (push_bit s (v mod 128)) = ?r"
      using "1.prems" le by (simp add: js_or_exact)
    have r0: "0 \<le> ?r" using "1.prems" by simp
    have r31: "?r < 2 ^ 31"
      using "1.prems" le by (intro OR_upper) simp_all
    have d1: "1 \<le> v div 128" using False by simp
    have pd: "push_bit (s + 7) (v div 128) \<le> push_bit s v"
    proof -
      have "128 * (v div 128) \<le> v" by simp
      then have "2 ^ s * (128 * (v div 128)) \<le> 2 ^ s * v" by (rule mult_left_mono) simp
      then show ?thesis by (simp add: push_bit_eq_mult power_add algebra_simps)
    qed
    then have p31: "push_bit (s + 7) (v div 128) < 2 ^ 31" using "1.prems"(6) by simp
    have s7: "s + 7 < 32"
    proof (rule ccontr)
      assume "\<not> s + 7 < 32"
      then have "(2::int) ^ 31 \<le> 2 ^ (s + 7)" by (intro power_increasing) simp_all
      also have "\<dots> \<le> push_bit (s + 7) (v div 128)"
        using d1 by (simp add: push_bit_eq_mult)
      finally show False using p31 by simp
    qed
    have step: "decodeUleb128_loop bytes offset r s m =
        decodeUleb128_loop bytes offset ?r (s + 7) (m + 1)"
      using len by (subst decodeUleb128_loop.simps) (simp add: nth byte a nz sh o Let_def)
    have pre': "bytes = (pre @ [toUint8 ?b]) @ map toUint8 (ulebBytes (v div 128)) @ post"
      using "1.prems"(2) ub by simp
    have off': "offset + (m + 1) = length (pre @ [toUint8 ?b])" using "1.prems"(3) by simp
    have "decodeUleb128_loop bytes offset ?r (s + 7) (m + 1) =
        \<lparr>value = ?r OR push_bit (s + 7) (v div 128),
         bytesRead = (m + 1) + length (ulebBytes (v div 128))\<rparr>"
      using d1 by (intro "1.IH" [OF False _ pre' off' r0 r31 p31 s7]) simp
    moreover have "?r OR push_bit (s + 7) (v div 128) = r OR push_bit s v"
    proof -
      have "push_bit s (v mod 128) OR push_bit (s + 7) (v div 128) =
          push_bit s (v mod 128 OR push_bit 7 (v div 128))"
        by (simp add: push_bit_or push_bit_push_bit add.commute del: push_bit_eq_mult)
      then show ?thesis by (simp add: split7 or.assoc)
    qed
    ultimately show ?thesis using step ub by simp
  qed
qed

lemma length_ulebBytes_pos: "0 < length (ulebBytes v)"
  by (subst ulebBytes.simps) simp

lemma toInt32_range: "- (2 ^ 31) \<le> toInt32 k" "toInt32 k < 2 ^ 31"
  unfolding toInt32_def
  using signed_take_bit_int_greater_eq_minus_exp [of 31 k] signed_take_bit_int_less_exp [of 31 k]
  by simp_all

lemma js_sar_nonneg_iff: "0 \<le> toInt32 (js_sar v k) \<longleftrightarrow> 0 \<le> toInt32 v"
proof -
  have "toInt32 (js_sar v k) = js_sar v k"
    unfolding toInt32_def js_sar_def
    by (rule bit_eqI) (auto simp add: bit_simps min_def)
  then show ?thesis by (simp add: js_sar_def)
qed

lemma encodeUleb128_loop_Some_nonneg:
  assumes "encodeUleb128_loop v bs = Some y"
  shows "0 \<le> toInt32 v"
proof (rule encodeUleb128_loop.raw_induct [where P = "\<lambda>v bs y. 0 \<le> toInt32 v", OF _ assms])
  fix f :: "int \<Rightarrow> int list \<Rightarrow> int list option" and v bs y
  assume IH: "\<And>v bs y. f v bs = Some y \<Longrightarrow> 0 \<le> toInt32 v"
    and body: "(let byte = js_and v 127; v' = js_sar v 7;
          byte = if v' \<noteq> 0 then js_or byte 128 else byte;
          bytes = bs @ [byte]
      in if v' \<noteq> 0 then f v' bytes else Some bytes) = Some y"
  show "0 \<le> toInt32 v"
  proof (cases "js_sar v 7 = 0")
    case True
    then have "0 \<le> toInt32 (js_sar v 7)" by (simp add: toInt32_def)
    then show ?thesis by (simp only: js_sar_nonneg_iff)
  next
    case False
    with body obtain bs' where "f (js_sar v 7) bs' = Some y"
      by (auto simp add: Let_def)
    then have "0 \<le> toInt32 (js_sar v 7)" by (rule IH)
    then show ?thesis by (simp only: js_sar_nonneg_iff)
  qed
qed

text \<open>
  C3 (as the code has it). The round trip holds for \<open>0 \<le> k < 2 ^ 31\<close>, the non-negative
  range of the 32-bit operators the encoder and the decoder are written with: the encoder
  returns, and the decoder reads \<open>k\<close> back and consumes every byte. Zero is the single byte
  \<open>0x00\<close>.
\<close>

theorem uleb128_roundtrip_below_2_31:
  assumes "0 \<le> k" and "k < 2 ^ 31"
  shows "(\<exists>bs. encodeUleb128 (Fin (of_int k)) = Some bs \<and>
            decodeUleb128 bs 0 = \<lparr>value = k, bytesRead = length bs\<rparr>) \<and>
         encodeUleb128 (Fin 0) = Some [0] \<and>
         decodeUleb128 [0] 0 = \<lparr>value = 0, bytesRead = 1\<rparr>"
proof -
  have e: "encodeUleb128 (Fin (of_int k)) = Some (map toUint8 (ulebBytes k))"
    using assms
    by (simp add: encodeUleb128_def numberToInt32_def truncateNumber_def toInt32_id
        encodeUleb128_loop_eq)
  have "decodeUleb128_loop (map toUint8 (ulebBytes k)) 0 0 0 0 =
      \<lparr>value = 0 OR push_bit 0 k, bytesRead = 0 + length (ulebBytes k)\<rparr>"
    using assms by (intro decodeUleb128_loop_eq [where pre = "[]" and post = "[]"]) simp_all
  then have "\<exists>bs. encodeUleb128 (Fin (of_int k)) = Some bs \<and>
      decodeUleb128 bs 0 = \<lparr>value = k, bytesRead = length bs\<rparr>"
    using e by (simp add: decodeUleb128_def)
  moreover have "encodeUleb128 (Fin 0) = Some [0]" by code_simp
  moreover have "decodeUleb128 [0] 0 = \<lparr>value = 0, bytesRead = 1\<rparr>" by code_simp
  ultimately show ?thesis by blast
qed

theorem uleb128_roundtrip_below_2_31_witness:
  "\<exists>bs. encodeUleb128 (Fin 300) = Some bs \<and>
     decodeUleb128 bs 0 = \<lparr>value = 300, bytesRead = length bs\<rparr>"
  using uleb128_roundtrip_below_2_31 [of 300] by simp

text \<open>
  C3 as stated fails from \<open>2 ^ 31\<close> on. At \<open>2 ^ 31\<close> the 32-bit value is negative and the
  encoder's loop never ends; at \<open>2 ^ 32\<close> the value wraps to zero, the encoding is the
  single byte \<open>0x00\<close> and the decoder returns 0.
\<close>

theorem uleb128_roundtrip_fails_from_2_31:
  "encodeUleb128 (Fin 2147483648) = None \<and>
   encodeUleb128 (Fin 4294967296) = Some [0] \<and>
   decodeUleb128 [0] 0 = \<lparr>value = 0, bytesRead = 1\<rparr>"
proof -
  have "toInt32 (numberToInt32 (Fin 2147483648)) < 0"
    by (simp add: numberToInt32_def truncateNumber_def toInt32_def)
  then have "encodeUleb128_loop (numberToInt32 (Fin 2147483648)) [] = None"
    using encodeUleb128_loop_Some_nonneg [of "numberToInt32 (Fin 2147483648)" "[]"]
    by (cases "encodeUleb128_loop (numberToInt32 (Fin 2147483648)) []") auto
  then have "encodeUleb128 (Fin 2147483648) = None" by (simp add: encodeUleb128_def)
  moreover have "encodeUleb128 (Fin 4294967296) = Some [0]" by code_simp
  moreover have "decodeUleb128 [0] 0 = \<lparr>value = 0, bytesRead = 1\<rparr>" by code_simp
  ultimately show ?thesis by blast
qed

text \<open>
  C10. When the offset is at or past the end of the byte sequence (so also for the empty
  sequence) \<^verbatim>\<open>decodeUleb128\<close> returns value 0 and zero bytes read; no error is raised.
\<close>

theorem decodeUleb128_past_end:
  assumes "length bytes \<le> offset"
  shows "decodeUleb128 bytes offset = \<lparr>value = 0, bytesRead = 0\<rparr>"
  using assms by (simp add: decodeUleb128_def decodeUleb128_loop.simps)

theorem decodeUleb128_past_end_witness:
  "decodeUleb128 [] 0 = \<lparr>value = 0, bytesRead = 0\<rparr> \<and>
   decodeUleb128 [5, 6] 2 = \<lparr>value = 0, bytesRead = 0\<rparr>"
  using decodeUleb128_past_end [of "[]" 0] decodeUleb128_past_end [of "[5, 6]" 2] by simp

section \<open>hexToBytes and encodeAddress: proofs\<close>

lemma isDigit16_props:
  assumes "isDigit 16 c"
  shows "\<not> isWhiteSpace c" "c \<noteq> CHR ''-''" "c \<noteq> CHR ''+''" "c \<noteq> CHR ''x''" "c \<noteq> CHR ''X''"
    "the (digitValue c) < 16"
  using assms
  by (auto simp add: isDigit_def digitValue_def isWhiteSpace_def Let_def split: if_splits)

lemma parseInt16_pair:
  assumes "isDigit 16 a" "isDigit 16 b"
  shows "parseInt16 [a, b] = Some (int (digitsValue 16 [a, b]))"
  using assms isDigit16_props [OF assms(1)] isDigit16_props [OF assms(2)]
  by (simp add: parseInt16_def startsWith_def Let_def)

lemma digitsValue_pair_less:
  assumes "isDigit 16 a" "isDigit 16 b"
  shows "digitsValue 16 [a, b] < 256"
  using isDigit16_props(6) [OF assms(1)] isDigit16_props(6) [OF assms(2)]
  by (simp add: digitsValue_def)

lemma hexToBytes_loop_eq:
  "length s = 2 * n \<Longrightarrow> length bytes = n \<Longrightarrow> k \<le> n \<Longrightarrow>
   hexToBytes_loop s (2 * k) bytes =
     take k bytes @
     map (\<lambda>j. case parseInt16 (take 2 (drop (2 * j) s)) of None \<Rightarrow> 0 | Some v \<Rightarrow> toUint8 v)
       [k..<n]"
proof (induction "n - k" arbitrary: k bytes)
  case 0
  then have "k = n" by simp
  then show ?case using 0 by (subst hexToBytes_loop.simps) simp
next
  case (Suc d)
  then have k: "k < n" by simp
  let ?b = "case parseInt16 (take 2 (drop (2 * k) s)) of None \<Rightarrow> 0 | Some v \<Rightarrow> toUint8 v"
  have "hexToBytes_loop s (2 * k) bytes = hexToBytes_loop s (2 * Suc k) (bytes[k := ?b])"
    using k Suc.prems by (subst hexToBytes_loop.simps) (simp add: typedArraySet_def)
  also have "\<dots> = take (Suc k) (bytes[k := ?b]) @
      map (\<lambda>j. case parseInt16 (take 2 (drop (2 * j) s)) of None \<Rightarrow> 0 | Some v \<Rightarrow> toUint8 v)
        [Suc k..<n]"
    using Suc.hyps(2) Suc.prems k by (intro Suc.hyps(1)) simp_all
  also have "take (Suc k) (bytes[k := ?b]) = take k bytes @ [?b]"
    using k Suc.prems by (simp add: take_Suc_conv_app_nth)
  finally show ?case using k by (simp add: upt_conv_Cons)
qed

lemma be_value_snoc: "be_value (bs @ [b]) = be_value bs * 256 + uint b"
  by (simp add: be_value_def)

lemma digitsValue_snoc2:
  "digitsValue 16 (s @ [a, b]) = digitsValue 16 s * 256 + digitsValue 16 [a, b]"
  by (simp add: digitsValue_def algebra_simps)

lemma be_value_pairs:
  "length s = 2 * n \<Longrightarrow> list_all (isDigit 16) s \<Longrightarrow>
   be_value (map (\<lambda>j. case parseInt16 (take 2 (drop (2 * j) s)) of
                        None \<Rightarrow> 0 | Some v \<Rightarrow> toUint8 v) [0..<n]) =
     int (digitsValue 16 s)"
proof (induction n arbitrary: s)
  case 0
  then show ?case by (simp add: be_value_def digitsValue_def)
next
  case (Suc n)
  define s' where "s' = take (2 * n) s"
  define a where "a = s ! (2 * n)"
  define b where "b = s ! (2 * n + 1)"
  have s: "s = s' @ [a, b]"
    using Suc.prems(1) unfolding s'_def a_def b_def
    by (intro nth_equalityI) (auto simp add: nth_append less_Suc_eq)
  have ls': "length s' = 2 * n" using Suc.prems(1) by (simp add: s'_def)
  have hs': "list_all (isDigit 16) s'" and ha: "isDigit 16 a" and hb: "isDigit 16 b"
    using Suc.prems(2) s by simp_all
  have pre: "map (\<lambda>j. case parseInt16 (take 2 (drop (2 * j) s)) of
                        None \<Rightarrow> 0 | Some v \<Rightarrow> toUint8 v) [0..<n] =
      map (\<lambda>j. case parseInt16 (take 2 (drop (2 * j) s')) of
                        None \<Rightarrow> 0 | Some v \<Rightarrow> toUint8 v) [0..<n]"
  proof (rule map_cong [OF refl])
    fix j assume "j \<in> set [0..<n]"
    then have "2 * j + 2 \<le> length s'" using ls' by simp
    then have "take 2 (drop (2 * j) s) = take 2 (drop (2 * j) s')"
      unfolding s by simp
    then show "(case parseInt16 (take 2 (drop (2 * j) s)) of None \<Rightarrow> 0 | Some v \<Rightarrow> toUint8 v) =
        (case parseInt16 (take 2 (drop (2 * j) s')) of None \<Rightarrow> 0 | Some v \<Rightarrow> toUint8 v)"
      by simp
  qed
  have last: "take 2 (drop (2 * n) s) = [a, b]" unfolding s using ls' by simp
  have u: "uint (toUint8 (int (digitsValue 16 [a, b]))) = int (digitsValue 16 [a, b])"
  proof -
    have "int (digitsValue 16 [a, b]) < 256" using digitsValue_pair_less [OF ha hb] by simp
    then have "int (digitsValue 16 [a, b]) mod 256 = int (digitsValue 16 [a, b])" by simp
    then show ?thesis unfolding toUint8_def uint_word_of_int by simp
  qed
  show ?case
    using Suc.IH [OF ls' hs'] 
    by (simp add: pre last parseInt16_pair [OF ha hb] be_value_snoc u)
       (simp add: s digitsValue_snoc2)
qed

lemma digitsValue_zeros: "digitsValue 16 (replicate k CHR ''0'' @ s) = digitsValue 16 s"
proof -
  have "foldl (\<lambda>acc c. acc * 16 + the (digitValue c)) 0 (replicate k CHR ''0'') = 0"
    by (induction k) (simp_all add: digitValue_def)
  then show ?thesis by (simp add: digitsValue_def)
qed

lemma hexToBytes_digits:
  assumes "length s = 2 * n" "list_all (isDigit 16) s"
  shows "length (hexToBytes s) = n \<and> be_value (hexToBytes s) = int (digitsValue 16 s)"
proof -
  have "\<not> startsWith s ''0x''"
  proof
    assume "startsWith s ''0x''"
    then obtain r where "s = CHR ''0'' # CHR ''x'' # r"
      by (cases s; cases "tl s") (auto simp add: startsWith_def)
    then have "isDigit 16 CHR ''x''" using assms(2) by simp
    then show False using isDigit16_props(4) by blast
  qed
  then have "hexToBytes s = hexToBytes_loop s (2 * 0) (replicate n 0)"
    using assms(1) by (simp add: hexToBytes_def)
  also have "\<dots> = map (\<lambda>j. case parseInt16 (take 2 (drop (2 * j) s)) of
                        None \<Rightarrow> 0 | Some v \<Rightarrow> toUint8 v) [0..<n]"
    using assms(1) by (subst hexToBytes_loop_eq [where n = n]) simp_all
  finally show ?thesis using be_value_pairs [OF assms] by simp
qed

lemma startsWith_0x_append: "startsWith (''0x'' @ c) ''0x''"
  by (simp add: startsWith_def)

lemma not_startsWith_0x_digits: "list_all (isDigit 16) c \<Longrightarrow> \<not> startsWith c ''0x''"
proof
  assume h: "list_all (isDigit 16) c" and "startsWith c ''0x''"
  then obtain r where "c = CHR ''0'' # CHR ''x'' # r"
    by (cases c; cases "tl c") (auto simp add: startsWith_def)
  then have "isDigit 16 CHR ''x''" using h by simp
  then show False using isDigit16_props(4) by blast
qed

text \<open>
  C5 (as the code has it). \<^verbatim>\<open>encodeAddress\<close> validates nothing and raises nothing. For an
  input that is, after an optional \<^verbatim>\<open>0x\<close>, at most 64 hexadecimal digits, it returns
  exactly 32 bytes whose big-endian value is the value of the digits: the address
  left-padded with zero bytes. The prefix changes nothing.
\<close>

theorem encodeAddress_hex:
  assumes "list_all (isDigit 16) c" and "length c \<le> 64"
  shows "length (encodeAddress c) = 32 \<and>
         be_value (encodeAddress c) = int (digitsValue 16 c) \<and>
         encodeAddress (''0x'' @ c) = encodeAddress c"
proof -
  let ?p = "padStart 64 CHR ''0'' c"
  have l: "length ?p = 2 * 32" using assms(2) by (simp add: padStart_def)
  have "isDigit 16 CHR ''0''" by (simp add: isDigit_def digitValue_def)
  then have h: "list_all (isDigit 16) ?p"
    using assms(1) by (auto simp add: padStart_def list_all_iff)
  have e: "encodeAddress c = hexToBytes ?p"
    using not_startsWith_0x_digits [OF assms(1)] by (simp add: encodeAddress_def)
  have "encodeAddress (''0x'' @ c) = hexToBytes ?p"
    using startsWith_0x_append [of c] by (simp add: encodeAddress_def)
  then show ?thesis
    using hexToBytes_digits [OF l h] e by (simp add: padStart_def digitsValue_zeros)
qed

theorem encodeAddress_hex_witness:
  "length (encodeAddress ''1'') = 32 \<and> be_value (encodeAddress ''1'') = 1 \<and>
   encodeAddress ''0x1'' = encodeAddress ''1''"
  using encodeAddress_hex [of "''1''"]
  by (simp add: isDigit_def digitValue_def digitsValue_def)

text \<open>
  C5 as stated fails: \<^verbatim>\<open>zz\<close> has no hexadecimal digit and a string of 66 digits is longer
  than 64, yet both are encoded, the first as 32 zero bytes and the second as 33 bytes.
\<close>

theorem encodeAddress_no_format_check:
  "encodeAddress ''zz'' = replicate 32 0 \<and>
   length (encodeAddress (replicate 66 CHR ''1'')) = 33"
  by code_simp

section \<open>unitConverter.ts: proofs\<close>

lemma digit_char: "d < 10 \<Longrightarrow> digitValue (''0123456789'' ! d) = Some d"
proof -
  assume "d < 10"
  then have "d \<in> {0, 1, 2, 3, 4, 5, 6, 7, 8, 9}" by auto
  then show ?thesis by (auto simp add: digitValue_def Let_def eval_nat_numeral)
qed

lemma isDigit10_props:
  assumes "isDigit 10 c"
  shows "\<not> isWhiteSpace c" "c \<noteq> CHR ''-''" "c \<noteq> CHR ''+''"
    "c \<notin> {CHR ''x'', CHR ''X'', CHR ''o'', CHR ''O'', CHR ''b'', CHR ''B''}"
  using assms
  by (auto simp add: isDigit_def digitValue_def isWhiteSpace_def Let_def split: if_splits)

lemma digit_char_props: "d < 10 \<Longrightarrow> isDigit 10 (''0123456789'' ! d)"
  by (simp add: isDigit_def digit_char)

lemma decimalString_digits: "list_all (isDigit 10) (decimalString n) \<and> decimalString n \<noteq> []"
proof (induction n rule: decimalString.induct)
  case (1 n)
  show ?case
  proof (cases "n < 10")
    case True
    then show ?thesis by (subst (1 2) decimalString.simps) (simp add: digit_char_props)
  next
    case False
    then show ?thesis using "1.IH"
      by (subst (1 2) decimalString.simps) (simp add: digit_char_props)
  qed
qed

lemma digitsValue_snoc:
  "digitsValue radix (ds @ [c]) = digitsValue radix ds * radix + the (digitValue c)"
  by (simp add: digitsValue_def)

lemma digitsValue_decimalString: "digitsValue 10 (decimalString n) = n"
proof (induction n rule: decimalString.induct)
  case (1 n)
  show ?case
  proof (cases "n < 10")
    case True
    then show ?thesis
      by (subst decimalString.simps) (simp add: digitsValue_def digit_char)
  next
    case False
    then show ?thesis using "1.IH"
      by (subst decimalString.simps) (simp add: digitsValue_snoc digit_char)
  qed
qed

lemma trim_digits:
  assumes "list_all (isDigit 10) s"
  shows "trim s = s"
proof (cases s)
  case Nil then show ?thesis by (simp add: trim_def)
next
  case (Cons c cs)
  have h: "\<not> isWhiteSpace (hd s)" using assms Cons by (simp add: isDigit10_props)
  have "last s \<in> set s" using Cons by simp
  then have "isDigit 10 (last s)" using assms by (simp add: list_all_iff)
  then have l: "\<not> isWhiteSpace (hd (rev s))"
    using Cons by (simp only: hd_rev isDigit10_props(1) not_False_eq_True)
  from h Cons have "dropWhile isWhiteSpace s = s" by simp
  moreover from l Cons have "dropWhile isWhiteSpace (rev s) = rev s"
    by (cases "rev s") simp_all
  ultimately show ?thesis by (simp add: trim_def)
qed

lemma stringToBigInt_digits:
  assumes "list_all (isDigit 10) s" "s \<noteq> []"
  shows "stringToBigInt s = Inr (int (digitsValue 10 s))"
proof -
  obtain c cs where s: "s = c # cs" using assms(2) by (cases s) auto
  have c: "isDigit 10 c" using assms(1) s by simp
  have nopre: "\<not> startsWith s [CHR ''0'', x]"
    if "x \<in> {CHR ''x'', CHR ''X'', CHR ''o'', CHR ''O'', CHR ''b'', CHR ''B''}" for x
  proof
    assume "startsWith s [CHR ''0'', x]"
    then obtain r where "s = CHR ''0'' # x # r"
      by (cases s; cases "tl s") (auto simp add: startsWith_def)
    then have "isDigit 10 x" using assms(1) by simp
    then show False using that isDigit10_props(4) [of x] by simp
  qed
  show ?thesis
    using assms c s isDigit10_props(2,3) [OF c] nopre
    by (simp add: stringToBigInt_def trim_digits unsignedDigits_def Let_def)
qed

lemma toBigInt_represent: "toBigInt (represent r n) = Inr (int n)"
proof (cases r)
  case AsNumber
  then show ?thesis by (simp add: toBigInt_def numberToBigInt_def)
next
  case AsString
  then show ?thesis
    using decimalString_digits [of n]
    by (simp add: toBigInt_def stringToBigInt_digits digitsValue_decimalString)
next
  case AsBigInt
  then show ?thesis by (simp add: toBigInt_def)
qed

lemma pow10_exact_list: "list_all (\<lambda>d. jsPow10 d = Fin (of_int (10 ^ d))) [0..<23]"
  by code_simp

lemma pow10_exact: "d \<le> 22 \<Longrightarrow> jsPow10 d = Fin (of_int (10 ^ d))"
  using pow10_exact_list by (simp add: list_all_iff)

lemma numberToBigInt_pow10: "numberToBigInt (Fin (10 ^ k)) = Inr (10 ^ k)"
  using numberToBigInt_of_int [of "10 ^ k"] by simp

text \<open>
  C7 (as the code has it). For a non-negative integer amount, in any of its three forms,
  and decimals that differ by at most 22, \<^verbatim>\<open>convertUnits\<close> multiplies exactly by the power
  of ten when \<open>toDecimals > fromDecimals\<close> and divides by it, truncating, when
  \<open>toDecimals < fromDecimals\<close>; so 100 from 2 to 0 decimals is 1 and 1 from 0 to 2 decimals
  is 100. The bound is that of \<^verbatim>\<open>10 ** d\<close> on Numbers: the powers of ten up to \<open>10 ^ 22\<close>
  are doubles.
\<close>

theorem convertUnits_exact:
  "(f < t \<and> t - f \<le> 22 \<longrightarrow>
      convertUnits (represent r n) f t = Inr (int n * 10 ^ (t - f))) \<and>
   (t < f \<and> f - t \<le> 22 \<longrightarrow>
      convertUnits (represent r n) f t = Inr (int n div 10 ^ (f - t))) \<and>
   (t = f \<longrightarrow> convertUnits (represent r n) f t = Inr (int n)) \<and>
   convertUnits (Num (Fin 100)) 2 0 = Inr 1 \<and>
   convertUnits (Num (Fin 1)) 0 2 = Inr 100"
proof -
  have up: "convertUnits (represent r n) f t = Inr (int n * 10 ^ (t - f))"
    if a: "f < t \<and> t - f \<le> 22" for r n f t
  proof -
    from a have "nat (int t - int f) = t - f" by simp
    then show ?thesis
      using a by (simp add: convertUnits_def toBigInt_represent Let_def pow10_exact
          numberToBigInt_pow10)
  qed
  have down: "convertUnits (represent r n) f t = Inr (int n div 10 ^ (f - t))"
    if a: "t < f \<and> f - t \<le> 22" for r n f t
  proof -
    from a have "nat \<bar>int t - int f\<bar> = f - t" by simp
    moreover have "sgn (int n) * (\<bar>int n\<bar> div 10 ^ (f - t)) = int n div 10 ^ (f - t)"
      by (cases "n = 0") simp_all
    ultimately show ?thesis
      using a by (simp add: convertUnits_def toBigInt_represent Let_def pow10_exact
          numberToBigInt_pow10 bigIntDiv_def)
  qed
  have same: "convertUnits (represent r n) f t = Inr (int n)" if "t = f"
    using that by (simp add: convertUnits_def toBigInt_represent)
  have "convertUnits (Num (Fin 100)) 2 0 = Inr 1"
    using down [of 0 2 AsNumber 100] by simp
  moreover have "convertUnits (Num (Fin 1)) 0 2 = Inr 100"
    using up [of 0 2 AsNumber 1] by simp
  ultimately show ?thesis using up [of f t r n] down [of t f r n] same by blast
qed

text \<open>Truncation, not rounding to nearest: 199 hundredths are 1 unit.\<close>

theorem convertUnits_exact_witness:
  "convertUnits (Big 199) 2 0 = Inr 1 \<and> convertUnits (Big 5) 1 4 = Inr 5000"
  using convertUnits_exact [of 2 0 AsBigInt 199] convertUnits_exact [of 1 4 AsBigInt 5]
  by simp

text \<open>
  C7 as stated fails for decimals 23 apart: \<open>10 ^ 22\<close> is a double and \<open>10 ^ 23\<close> is not,
  so \<^verbatim>\<open>10 ** 23\<close> is another number and the product is not the amount times \<open>10 ^ 23\<close>.
\<close>

theorem convertUnits_inexact_at_23:
  "convertUnits (Big 1) 0 23 \<noteq> Inr (1 * 10 ^ 23) \<and> isDouble (10 ^ 22) \<and> \<not> isDouble (10 ^ 23)"
  by code_simp

text \<open>
  C8. For amounts \<open>a\<close> and \<open>b\<close>, each arriving as a Number, a decimal string or a BigInt,
  \<^verbatim>\<open>compareAmounts\<close> returns \<open>-1\<close> if \<open>a < b\<close>, \<open>1\<close> if \<open>a > b\<close> and \<open>0\<close> if they are equal,
  whatever the two forms; so 1 against 2 is \<open>-1\<close>, 2 against 1 is \<open>1\<close> and 5 against 5
  is \<open>0\<close>.
\<close>

theorem compareAmounts_order:
  "compareAmounts (represent ra a) (represent rb b) =
     Inr (if a < b then - 1 else if b < a then 1 else 0) \<and>
   compareAmounts (represent ra 1) (represent rb 2) = Inr (- 1) \<and>
   compareAmounts (represent ra 2) (represent rb 1) = Inr 1 \<and>
   compareAmounts (represent ra 5) (represent rb 5) = Inr 0"
  by (simp add: compareAmounts_def toBigInt_represent)

theorem compareAmounts_order_witness:
  "compareAmounts (Num (Fin 1)) (Str ''2'') = Inr (- 1) \<and>
   compareAmounts (Str ''12'') (Big 5) = Inr 1"
  using compareAmounts_order [of AsNumber 1 AsString 2]
    compareAmounts_order [of AsString 12 AsBigInt 5]
  by (simp add: decimalString.simps)

text \<open>
  C9. \<^verbatim>\<open>isValidAmount\<close> returns a boolean for every input and never throws. For a BigInt
  it is true exactly when the integer is not negative; for a Number, and for a string
  through the Number \<^verbatim>\<open>parseFloat\<close> reads from it, exactly when that Number is not NaN and
  not below zero. So \<open>-1\<close> is invalid, \<open>0\<close> is valid and NaN is invalid.
\<close>

theorem isValidAmount_iff_nonNegative:
  "(\<exists>b. isValidAmount_try parseFloat a = Inr b) \<and>
   isValidAmount parseFloat (Big n) = (0 \<le> n) \<and>
   isValidAmount parseFloat (Num x) = nonNegative x \<and>
   isValidAmount parseFloat (Str s) = nonNegative (parseFloat s) \<and>
   isValidAmount parseFloat (Num (Fin (- 1))) = False \<and>
   isValidAmount parseFloat (Num (Fin 0)) = True \<and>
   isValidAmount parseFloat (Num NaN) = False"
proof -
  have "\<exists>b. isValidAmount_try parseFloat a = Inr b"
    by (cases a) (simp_all add: isValidAmount_try_def Let_def)
  moreover have "isValidAmount parseFloat (Num x) = nonNegative x"
    by (cases x) (simp_all add: isValidAmount_def isValidAmount_try_def isNaN_def nonNegative_def)
  moreover have "isValidAmount parseFloat (Str s) = nonNegative (parseFloat s)"
    by (cases "parseFloat s")
       (simp_all add: isValidAmount_def isValidAmount_try_def isNaN_def nonNegative_def)
  ultimately show ?thesis
    by (simp add: isValidAmount_def isValidAmount_try_def isNaN_def)
qed

theorem isValidAmount_iff_nonNegative_witness:
  "isValidAmount (\<lambda>s. NaN) (Big 7) = True \<and>
   isValidAmount (\<lambda>s. NaN) (Num NegInf) = False \<and>
   isValidAmount (\<lambda>s. NaN) (Str ''abc'') = False"
  using isValidAmount_iff_nonNegative [of "\<lambda>s. NaN" "Big 7" 7 NegInf "''abc''"]
  by (simp add: nonNegative_def)

section \<open>encodeMoveArg and convertToMoveArg: proofs\<close>

lemma encodeUleb128_small:
  assumes "0 \<le> k" "k < 2 ^ 31"
  shows "encodeUleb128 (Fin (of_int k)) = Some (map toUint8 (ulebBytes k))"
  using assms
  by (simp add: encodeUleb128_def numberToInt32_def truncateNumber_def toInt32_id
      encodeUleb128_loop_eq)

lemma collect_Returns: "collect (map (\<lambda>x. Returns (g x)) xs) = Returns (map g xs)"
  by (induction xs) (simp_all add: bind_def)

lemma foldl_length: "foldl (\<lambda>sum item. sum + length item) a items = a + length (concat items)"
  by (induction items arbitrary: a) simp_all

lemma encodeVector_loop_eq:
  "encodeVector_loop items (pre @ replicate (length (concat items)) 0) (length pre) =
     Returns (pre @ concat items)"
proof (induction items arbitrary: pre)
  case Nil
  show ?case by simp
next
  case (Cons item items)
  have "typedArraySetAll (pre @ replicate (length (concat (item # items))) 0) item (length pre) =
      Returns ((pre @ item) @ replicate (length (concat items)) 0)"
    by (simp add: typedArraySetAll_def replicate_add [symmetric] del: replicate_add)
  then show ?case using Cons [of "pre @ item"] by (simp add: bind_def)
qed

lemma encodeVector_eq:
  assumes "encodeUleb128 (Fin (of_nat (length items))) = Some p"
  shows "encodeVector items = Returns (p @ concat items)"
proof -
  have "typedArraySetAll (replicate (length p + length (concat items)) 0) p 0 =
      Returns (p @ replicate (length (concat items)) 0)"
    by (simp add: typedArraySetAll_def replicate_add [symmetric] del: replicate_add)
  then show ?thesis
    using assms encodeVector_loop_eq [of items p]
    by (simp add: encodeVector_def ofOption_def bind_def foldl_length Let_def)
qed

lemma tag_facts:
  "toLowerCase ''vector<u8>'' = ''vector<u8>''"
  "startsWith ''vector<u8>'' ''vector<''"
  "slice_7_to_last ''vector<u8>'' = ''u8''"
  "toLowerCase ''u8'' = ''u8''"
  "\<not> isPrimitiveType ''vector<u8>''"
  "isVectorType ''vector<u8>''"
  "getVectorInnerType ''vector<u8>'' = ''u8''"
  by code_simp+

lemma encodeMoveArg_u8: "encodeMoveArg ''u8'' (JNum x) = Returns (encodeU8 x)"
  by (subst encodeMoveArg.simps) (simp add: tag_facts bind_def)

lemma encodeMoveArg_vector_u8_string: "encodeMoveArg ''vector<u8>'' (JStr s) = Throws TypeError"
  by (subst encodeMoveArg.simps) (simp add: tag_facts)

lemma encodeMoveArg_vector_u8_array:
  assumes "length ns < 2 ^ 31"
  shows "encodeMoveArg ''vector<u8>'' (JArr (map (\<lambda>n. JNum (Fin (of_int n))) ns)) =
    Returns (map toUint8 (ulebBytes (int (length ns))) @ map word_of_int ns)"
proof -
  have u: "encodeUleb128 (Fin (of_nat (length ns))) = Some (map toUint8 (ulebBytes (int (length ns))))"
    using encodeUleb128_small [of "int (length ns)"] assms by simp
  have b: "encodeU8 (Fin (of_int n)) = [word_of_int n]" for n
    using encodeU8_int [of n] by (simp add: word_of_int_eq_iff take_bit_eq_mod)
  have "encodeMoveArg ''vector<u8>'' (JArr (map (\<lambda>n. JNum (Fin (of_int n))) ns)) =
      bind (collect (map (\<lambda>n. Returns [word_of_int n]) ns)) encodeVector"
    by (subst encodeMoveArg.simps)
       (simp add: tag_facts encodeMoveArg_u8 b comp_def)
  also have "\<dots> = encodeVector (map (\<lambda>n. [word_of_int n]) ns)"
    by (simp add: collect_Returns bind_def)
  also have "\<dots> = Returns (map toUint8 (ulebBytes (int (length ns))) @
      concat (map (\<lambda>n. [word_of_int n]) ns))"
    using u by (intro encodeVector_eq) simp
  also have "concat (map (\<lambda>n. [word_of_int n :: byte]) ns) = map word_of_int ns"
    by (induction ns) simp_all
  finally show ?thesis .
qed

lemma convertToMoveArg_hex:
  "convertToMoveArg (JStr s) ''vector<u8>'' =
     Returns (JArr (map (\<lambda>b. JNum (Fin (of_nat b)))
       (bufferFromHex (if startsWith s ''0x'' then drop 2 s else s))))"
  by (subst convertToMoveArg.simps) (simp add: tag_facts)

lemma bufferFromHex_digits:
  "list_all (isDigit 16) h \<Longrightarrow>
   length (bufferFromHex h) = length h div 2 \<and>
   (\<forall>i < length h div 2. bufferFromHex h ! i = digitsValue 16 (take 2 (drop (2 * i) h)))"
proof (induction h rule: bufferFromHex.induct)
  case (1 a b rest)
  then have ih: "length (bufferFromHex rest) = length rest div 2"
    "\<And>i. i < length rest div 2 \<Longrightarrow>
        bufferFromHex rest ! i = digitsValue 16 (take 2 (drop (2 * i) rest))"
    by simp_all
  have "bufferFromHex (a # b # rest) ! i = digitsValue 16 (take 2 (drop (2 * i) (a # b # rest)))"
    if "i < length (a # b # rest) div 2" for i
  proof (cases i)
    case 0
    then show ?thesis using "1.prems" by (simp add: digitsValue_def)
  next
    case (Suc j)
    then have "j < length rest div 2" using that by simp
    then show ?thesis using "1.prems" Suc ih(2) [of j] by simp
  qed
  then show ?case using "1.prems" ih(1) by simp
qed simp_all

text \<open>
  C4 (as the code has it). For the type tag \<^verbatim>\<open>vector<u8>\<close>, \<^verbatim>\<open>encodeMoveArg\<close> takes an
  array: it encodes every element as one u8 after the ULEB128 count of the elements, and
  on a string, hexadecimal or not, it fails with a TypeError. The hexadecimal shortcut is
  that of \<^verbatim>\<open>convertToMoveArg\<close>: for the tag \<^verbatim>\<open>vector<u8>\<close> and a string of hexadecimal
  digits, with or without \<^verbatim>\<open>0x\<close>, it returns the array of the byte values, one for each
  pair of digits, and \<^verbatim>\<open>encodeMoveArg\<close> encodes that array as the byte vector.
\<close>

theorem vector_u8_hex_string:
  "encodeMoveArg ''vector<u8>'' (JStr s) = Throws TypeError \<and>
   (length ns < 2 ^ 31 \<longrightarrow>
      (\<exists>p. encodeUleb128 (Fin (of_nat (length ns))) = Some p \<and>
           encodeMoveArg ''vector<u8>'' (JArr (map (\<lambda>n. JNum (Fin (of_int n))) ns)) =
             Returns (p @ map word_of_int ns))) \<and>
   (list_all (isDigit 16) h \<and> length h < 2 ^ 32 \<longrightarrow>
      (\<exists>bs p. convertToMoveArg (JStr h) ''vector<u8>'' =
                 Returns (JArr (map (\<lambda>b. JNum (Fin (of_nat b))) bs)) \<and>
              convertToMoveArg (JStr (''0x'' @ h)) ''vector<u8>'' =
                 Returns (JArr (map (\<lambda>b. JNum (Fin (of_nat b))) bs)) \<and>
              length bs = length h div 2 \<and>
              (\<forall>i < length h div 2. bs ! i = digitsValue 16 (take 2 (drop (2 * i) h))) \<and>
              encodeUleb128 (Fin (of_nat (length bs))) = Some p \<and>
              encodeMoveArg ''vector<u8>'' (JArr (map (\<lambda>b. JNum (Fin (of_nat b))) bs)) =
                 Returns (p @ map of_nat bs)))"
proof (intro conjI impI)
  show "encodeMoveArg ''vector<u8>'' (JStr s) = Throws TypeError"
    by (rule encodeMoveArg_vector_u8_string)
next
  assume l: "length ns < 2 ^ 31"
  then have "encodeUleb128 (Fin (of_nat (length ns))) =
      Some (map toUint8 (ulebBytes (int (length ns))))"
    using encodeUleb128_small [of "int (length ns)"] by simp
  then show "\<exists>p. encodeUleb128 (Fin (of_nat (length ns))) = Some p \<and>
      encodeMoveArg ''vector<u8>'' (JArr (map (\<lambda>n. JNum (Fin (of_int n))) ns)) =
        Returns (p @ map word_of_int ns)"
    using encodeMoveArg_vector_u8_array [OF l] by simp
next
  assume a: "list_all (isDigit 16) h \<and> length h < 2 ^ 32"
  let ?bs = "bufferFromHex h"
  let ?p = "map toUint8 (ulebBytes (int (length ?bs)))"
  have d: "length ?bs = length h div 2"
    "\<forall>i < length h div 2. ?bs ! i = digitsValue 16 (take 2 (drop (2 * i) h))"
    using bufferFromHex_digits [of h] a by simp_all
  have "length h < 2 ^ 32" using a by simp
  then have "length h div 2 < (2::nat) ^ 31" by simp
  then have l: "length (map int ?bs) < 2 ^ 31" using d(1) by simp
  have c1: "convertToMoveArg (JStr h) ''vector<u8>'' =
      Returns (JArr (map (\<lambda>b. JNum (Fin (of_nat b))) ?bs))"
    using a not_startsWith_0x_digits [of h] by (simp add: convertToMoveArg_hex)
  have c2: "convertToMoveArg (JStr (''0x'' @ h)) ''vector<u8>'' =
      Returns (JArr (map (\<lambda>b. JNum (Fin (of_nat b))) ?bs))"
    using startsWith_0x_append [of h] by (simp add: convertToMoveArg_hex)
  have u: "encodeUleb128 (Fin (of_nat (length ?bs))) = Some ?p"
    using encodeUleb128_small [of "int (length ?bs)"] l by simp
  have e: "encodeMoveArg ''vector<u8>'' (JArr (map (\<lambda>b. JNum (Fin (of_nat b))) ?bs)) =
      Returns (?p @ map of_nat ?bs)"
    using encodeMoveArg_vector_u8_array [OF l] by (simp add: comp_def)
  show "\<exists>bs p. convertToMoveArg (JStr h) ''vector<u8>'' =
                 Returns (JArr (map (\<lambda>b. JNum (Fin (of_nat b))) bs)) \<and>
              convertToMoveArg (JStr (''0x'' @ h)) ''vector<u8>'' =
                 Returns (JArr (map (\<lambda>b. JNum (Fin (of_nat b))) bs)) \<and>
              length bs = length h div 2 \<and>
              (\<forall>i < length h div 2. bs ! i = digitsValue 16 (take 2 (drop (2 * i) h))) \<and>
              encodeUleb128 (Fin (of_nat (length bs))) = Some p \<and>
              encodeMoveArg ''vector<u8>'' (JArr (map (\<lambda>b. JNum (Fin (of_nat b))) bs)) =
                 Returns (p @ map of_nat bs)"
    using c1 c2 d u e by blast
qed

theorem vector_u8_hex_string_witness:
  "encodeMoveArg ''vector<u8>'' (JStr ''0102'') = Throws TypeError \<and>
   (\<exists>p. encodeUleb128 (Fin 2) = Some p \<and>
        encodeMoveArg ''vector<u8>'' (JArr [JNum (Fin 1), JNum (Fin 2)]) = Returns (p @ [1, 2])) \<and>
   (\<exists>bs. convertToMoveArg (JStr ''0x0102'') ''vector<u8>'' =
           Returns (JArr (map (\<lambda>b. JNum (Fin (of_nat b))) bs)) \<and> length bs = 2)"
proof -
  have h: "list_all (isDigit 16) ''0102'' \<and> length ''0102'' < 2 ^ 32"
    by (simp add: isDigit_def digitValue_def)
  have "length [1, 2 :: int] < 2 ^ 31" by simp
  then show ?thesis
    using vector_u8_hex_string [of "''0102''" "[1, 2]" "''0102''"] h by auto
qed

text \<open>
  C4 as stated fails: given the tag \<^verbatim>\<open>vector<u8>\<close> and the hexadecimal strings \<^verbatim>\<open>0x0102\<close>
  and \<^verbatim>\<open>0102\<close>, \<^verbatim>\<open>encodeMoveArg\<close> throws a TypeError, a string having no \<^verbatim>\<open>map\<close> method.
\<close>

theorem encodeMoveArg_rejects_hex_string:
  "encodeMoveArg ''vector<u8>'' (JStr ''0x0102'') = Throws TypeError \<and>
   encodeMoveArg ''vector<u8>'' (JStr ''0102'') = Throws TypeError"
  by (simp add: encodeMoveArg_vector_u8_string)

end
